theory Spec2Isabelle
  imports Complex_Main "HOL-Library.AList"
begin

section \<open>The Trainer of schnetpack/train/trainer.py\<close>

text \<open>
  A shallow embedding of class \<^verbatim>\<open>Trainer\<close>. The mutable attributes of the object are
  the fields of the record \<open>trainer\<close>; every method takes the trainer and returns the
  updated one. A raised exception is the left summand and carries the trainer as it was
  when the exception left the method, because the handler of \<^verbatim>\<open>train\<close> goes on working
  with that object.

  The collaborators that are not part of the file (model, loss function, optimizer, data
  loaders, hooks) are parameters: the record \<open>collab\<close>, the loaders of \<open>config\<close> and the
  hook objects stored in the trainer. Tensors are single real numbers, the only shape
  \<^verbatim>\<open>calc_pred\<close> accepts (\<^verbatim>\<open>torch.tensor(preds)\<close> followed by \<^verbatim>\<open>torch.mean\<close>), and
  floating point arithmetic is idealised to \<open>real\<close>. Device transfer, \<^verbatim>\<open>print\<close> and
  the \<^verbatim>\<open>train()\<close>/\<^verbatim>\<open>eval()\<close> mode switches do not touch the modelled state and are left
  out. Counters and configuration numbers are natural numbers: \<^verbatim>\<open>epoch\<close> and \<^verbatim>\<open>step\<close>
  start at 0 and are only incremented (the one decrement follows an increment).

  A hook is an object with a state of its own and callbacks. A callback sees the
  counters, the best losses and the stop flag of the trainer and the arguments of the
  call; it may change the state of its hook and the stop flag, or raise. Hooks that
  assign to other attributes of the trainer are outside the model. The checkpoint
  directory holds the files that \<^verbatim>\<open>store_checkpoint\<close> wrote and no others, and a file
  \<^verbatim>\<open>checkpoint-<epoch>.pth.tar\<close> stands for the epoch in its name.
\<close>

subsection \<open>Exceptions and results\<close>

datatype error =
    AttributeError
  | IndexError
  | ValueError
  | ZeroDivisionError
  | FileNotFoundError
  | Raised nat      \<comment> \<open>an exception derived from \<^verbatim>\<open>Exception\<close>, raised by a collaborator\<close>
  | Interrupt       \<comment> \<open>\<^verbatim>\<open>KeyboardInterrupt\<close>/\<^verbatim>\<open>SystemExit\<close>: not derived from \<^verbatim>\<open>Exception\<close>\<close>

fun is_Exception :: "error \<Rightarrow> bool" where
  "is_Exception Interrupt = False"
| "is_Exception _ = True"

datatype flow = Continue | Break

definition andthen :: "'e + 'a \<Rightarrow> ('a \<Rightarrow> 'e + 'c) \<Rightarrow> 'e + 'c" where
  "andthen r f = (case r of Inl x \<Rightarrow> Inl x | Inr a \<Rightarrow> f a)"

definition raised_in :: "'s \<Rightarrow> error + 'a \<Rightarrow> (error \<times> 's) + 'a" where
  "raised_in t r = (case r of Inl e \<Rightarrow> Inl (e, t) | Inr a \<Rightarrow> Inr a)"

subsection \<open>Hooks, collaborators, configuration\<close>

text \<open>
  The callbacks of a hook, with the arguments \<^verbatim>\<open>train\<close> passes besides the trainer.
\<close>

datatype 'b callback =
    OnTrainBegin
  | OnEpochBegin
  | OnBatchBegin 'b
  | OnBatchEnd 'b real real
  | OnValidationBegin
  | OnValidationBatchBegin
  | OnValidationBatchEnd 'b real
  | OnValidationEnd real
  | OnEpochEnd
  | OnTrainEnds
  | OnTrainFailed

text \<open>
  What a callback reads of the trainer it is handed. A callback answers with an
  exception, or with the new state of its hook and the value it leaves in
  \<^verbatim>\<open>trainer._stop\<close>.
\<close>

record run_view =
  v_epoch :: nat
  v_step :: nat
  v_best_loss :: "real option"
  v_best_losses :: "real list"
  v_stop :: bool

record ('b, 'h) hook =
  react :: "'b callback \<Rightarrow> run_view \<Rightarrow> 'h \<Rightarrow> error + ('h \<times> bool)"
  hstate :: 'h     \<comment> \<open>\<^verbatim>\<open>h.state_dict\<close>\<close>

record ('b, 'm, 'o) collab =
  forward :: "'m \<Rightarrow> 'b \<Rightarrow> error + real"            \<comment> \<open>\<^verbatim>\<open>self._model(batch)\<close>, its field \<^verbatim>\<open>'y'\<close>\<close>
  loss_fn :: "'b \<Rightarrow> real \<Rightarrow> error + real"          \<comment> \<open>\<^verbatim>\<open>self.loss_fn(batch, result)\<close>\<close>
  backward :: "'b \<Rightarrow> real \<Rightarrow> real \<Rightarrow> 'm \<Rightarrow> 'm"      \<comment> \<open>\<^verbatim>\<open>loss.backward()\<close>: gradients accumulate in the model\<close>
  opt_step :: "'o \<Rightarrow> 'm \<Rightarrow> error + ('o \<times> 'm)"       \<comment> \<open>\<^verbatim>\<open>self.optimizer.step()\<close>\<close>
  zero_grad :: "'m \<Rightarrow> 'm"                         \<comment> \<open>\<^verbatim>\<open>self.optimizer.zero_grad()\<close>\<close>
  vsize :: "'b \<Rightarrow> nat"                            \<comment> \<open>\<^verbatim>\<open>list(val_batch.values())[0].size(0)\<close>\<close>

record 'b config =
  train_loader :: "'b list"
  validation_loader :: "'b list"
  keep_n_checkpoints :: nat
  checkpoint_interval :: nat
  validation_interval :: nat
  loss_is_normalized :: bool
  n_acc_steps :: nat
  remember :: nat
  ensembleModel :: bool

subsection \<open>The trainer and its checkpoint dictionary\<close>

record ('m, 'o, 'h) state_dict =
  sd_epoch :: nat
  sd_step :: nat
  sd_best_loss :: "real option"
  sd_best_losses :: "real list"
  sd_optimizer :: 'o
  sd_hooks :: "'h list"
  sd_model :: 'm

text \<open>
  What the trainer does that an observer can see, in the order it happens.
\<close>

datatype 'b action =
    HookCall nat "'b callback"     \<comment> \<open>the hook at this index of \<^verbatim>\<open>self.hooks\<close> is called\<close>
  | ModelCall 'b
  | OptimizerStep
  | ZeroGrad
  | WriteCheckpoint nat            \<comment> \<open>\<^verbatim>\<open>torch.save\<close> of \<^verbatim>\<open>checkpoint-<epoch>.pth.tar\<close>\<close>
  | RemoveCheckpoint nat           \<comment> \<open>\<^verbatim>\<open>os.remove\<close> of \<^verbatim>\<open>checkpoint-<epoch>.pth.tar\<close>\<close>

text \<open>
  \<open>best_loss = None\<close> is \<^verbatim>\<open>float("inf")\<close>. \<open>epoch_losses = None\<close> is the attribute
  \<^verbatim>\<open>self.epoch_losses\<close> not being set. \<open>checkpoints\<close> is the checkpoint directory, a file
  \<^verbatim>\<open>checkpoint-<e>.pth.tar\<close> being the pair of \<open>e\<close> and its content, in the order
  \<^verbatim>\<open>os.listdir\<close> gives; \<open>best_model_file\<close> and \<open>best_model_slots\<close> are the files
  \<^verbatim>\<open>best_model\<close> and \<^verbatim>\<open>best_model<i>\<close>. \<open>trace\<close> is the log of actions so far.
\<close>

record ('b, 'm, 'o, 'h) trainer =
  epoch :: nat
  step :: nat
  best_loss :: "real option"
  best_losses :: "real list"
  epoch_losses :: "real list list option"
  stop :: bool
  model :: 'm
  optimizer :: 'o
  hooks :: "('b, 'h) hook list"
  checkpoints :: "(nat \<times> ('m, 'o, 'h) state_dict) list"
  best_model_file :: "'m option"
  best_model_slots :: "nat \<Rightarrow> 'm option"
  trace :: "'b action list"

type_synonym ('b, 'm, 'o, 'h) result =
  "(error \<times> ('b, 'm, 'o, 'h) trainer) + ('b, 'm, 'o, 'h) trainer"

definition view :: "('b, 'm, 'o, 'h) trainer \<Rightarrow> run_view" where
  "view t = \<lparr>v_epoch = epoch t, v_step = step t, v_best_loss = best_loss t,
             v_best_losses = best_losses t, v_stop = stop t\<rparr>"

text \<open>
  \<^verbatim>\<open>for h in self.hooks: h.on_...(self)\<close>. The hooks already called are \<open>done\<close>, those
  still to call \<open>todo\<close>. A hook that raises ends the loop.
\<close>

fun call_hooks :: "'b callback \<Rightarrow> ('b, 'h) hook list \<Rightarrow> ('b, 'h) hook list \<Rightarrow>
    ('b, 'm, 'o, 'h) trainer \<Rightarrow> ('b, 'm, 'o, 'h) result" where
  "call_hooks cb done [] t = Inr (t\<lparr>hooks := done\<rparr>)"
| "call_hooks cb done (h # todo) t =
     (let t1 = t\<lparr>trace := trace t @ [HookCall (length done) cb]\<rparr> in
      case react h cb (view t) (hstate h) of
        Inl e \<Rightarrow> Inl (e, t1\<lparr>hooks := done @ h # todo\<rparr>)
      | Inr (s, flag) \<Rightarrow>
          call_hooks cb (done @ [h\<lparr>hstate := s\<rparr>]) todo (t1\<lparr>stop := flag\<rparr>))"

definition run_hooks :: "'b callback \<Rightarrow> ('b, 'm, 'o, 'h) trainer \<Rightarrow> ('b, 'm, 'o, 'h) result" where
  "run_hooks cb t = call_hooks cb [] (hooks t) t"

subsection \<open>\<^verbatim>\<open>state_dict\<close>: getter and setter\<close>

definition get_state_dict :: "('b, 'm, 'o, 'h) trainer \<Rightarrow> ('m, 'o, 'h) state_dict" where
  "get_state_dict t =
     \<lparr>sd_epoch = epoch t, sd_step = step t, sd_best_loss = best_loss t,
      sd_best_losses = best_losses t, sd_optimizer = optimizer t,
      sd_hooks = map hstate (hooks t), sd_model = model t\<rparr>"

text \<open>\<^verbatim>\<open>for h, s in zip(hs, ss): h.state_dict = s\<close>\<close>

fun assign_hook_states :: "('b, 'h) hook list \<Rightarrow> 'h list \<Rightarrow> ('b, 'h) hook list" where
  "assign_hook_states (h # hs) (s # ss) = h\<lparr>hstate := s\<rparr> # assign_hook_states hs ss"
| "assign_hook_states hs ss = hs"

text \<open>
  The setter. Its last loop reads \<^verbatim>\<open>self.state_dict["hooks"]\<close>, the getter of the
  trainer just updated, not the argument.
\<close>

definition set_state_dict :: "('m, 'o, 'h) state_dict \<Rightarrow> ('b, 'm, 'o, 'h) trainer \<Rightarrow>
    ('b, 'm, 'o, 'h) trainer" where
  "set_state_dict sd t =
     (let t1 = t\<lparr>epoch := sd_epoch sd, step := sd_step sd, best_loss := sd_best_loss sd,
                 best_losses := sd_best_losses sd, optimizer := sd_optimizer sd,
                 model := sd_model sd\<rparr>
      in t1\<lparr>hooks := assign_hook_states (hooks t1) (sd_hooks (get_state_dict t1))\<rparr>)"

subsection \<open>\<^verbatim>\<open>store_checkpoint\<close> and \<^verbatim>\<open>restore_checkpoint\<close>\<close>

text \<open>\<^verbatim>\<open>np.argsort\<close>: the indices that sort the list.\<close>

definition argsort :: "nat list \<Rightarrow> nat list" where
  "argsort xs = map snd (sort_key fst (zip xs [0..<length xs]))"

text \<open>The slice \<^verbatim>\<open>xs[:-k]\<close> for \<open>k \<ge> 0\<close>; \<^verbatim>\<open>xs[:-0]\<close> is \<^verbatim>\<open>xs[:0]\<close>, the empty list.\<close>

definition but_last :: "nat \<Rightarrow> 'a list \<Rightarrow> 'a list" where
  "but_last k xs = (if k = 0 then [] else take (length xs - k) xs)"

definition remove_checkpoint :: "nat \<Rightarrow> ('b, 'm, 'o, 'h) trainer \<Rightarrow> ('b, 'm, 'o, 'h) trainer" where
  "remove_checkpoint e t =
     t\<lparr>checkpoints := AList.delete e (checkpoints t), trace := trace t @ [RemoveCheckpoint e]\<rparr>"

definition store_checkpoint :: "'b config \<Rightarrow> ('b, 'm, 'o, 'h) trainer \<Rightarrow> ('b, 'm, 'o, 'h) trainer" where
  "store_checkpoint cfg t =
     (let t1 = t\<lparr>checkpoints := AList.update (epoch t) (get_state_dict t) (checkpoints t),
                 trace := trace t @ [WriteCheckpoint (epoch t)]\<rparr>;
          chpts = map fst (checkpoints t1)
      in if length chpts > keep_n_checkpoints cfg then
           (let chpt_epochs = chpts;
                sidx = argsort chpt_epochs
            in fold (\<lambda>i. remove_checkpoint (chpts ! i)) (but_last (keep_n_checkpoints cfg) sidx) t1)
         else t1)"

text \<open>
  \<^verbatim>\<open>restore_checkpoint(epoch=None)\<close>: \<^verbatim>\<open>max\<close> of an empty list raises \<^verbatim>\<open>ValueError\<close>,
  \<^verbatim>\<open>torch.load\<close> of a missing file \<^verbatim>\<open>FileNotFoundError\<close>.
\<close>

definition restore_checkpoint :: "nat option \<Rightarrow> ('b, 'm, 'o, 'h) trainer \<Rightarrow> ('b, 'm, 'o, 'h) result" where
  "restore_checkpoint arg t =
     andthen
       (case arg of
          Some e \<Rightarrow> Inr e
        | None \<Rightarrow> (case map fst (checkpoints t) of
                     [] \<Rightarrow> Inl (ValueError, t)
                   | e # es \<Rightarrow> Inr (fold max es e)))
       (\<lambda>e. case map_of (checkpoints t) e of
              None \<Rightarrow> Inl (FileNotFoundError, t)
            | Some sd \<Rightarrow> Inr (set_state_dict sd t))"

subsection \<open>\<^verbatim>\<open>calc_pred\<close>\<close>

text \<open>\<^verbatim>\<open>xs[i]\<close> for an index that is not negative.\<close>

definition item :: "'a list \<Rightarrow> nat \<Rightarrow> error + 'a" where
  "item xs i = (if i < length xs then Inr (xs ! i) else Inl IndexError)"

text \<open>
  The loop \<^verbatim>\<open>for i in range(lene - 1, lene2, -1): preds.append(epoch_losses[i][batch_num])\<close>
  over the indices still to visit.
\<close>

fun collect_preds :: "real list list \<Rightarrow> nat \<Rightarrow> int list \<Rightarrow> real list \<Rightarrow> error + real list" where
  "collect_preds losses batch_num [] preds = Inr preds"
| "collect_preds losses batch_num (i # is) preds =
     andthen (item losses (nat i)) (\<lambda>row.
     andthen (item row batch_num) (\<lambda>p.
     collect_preds losses batch_num is (preds @ [p])))"

definition mean :: "real list \<Rightarrow> real" where
  "mean preds = sum_list preds / real (length preds)"

definition calc_pred :: "real \<Rightarrow> real list list \<Rightarrow> nat \<Rightarrow> nat \<Rightarrow> error + real" where
  "calc_pred prediction losses batch_num rem =
     (let preds = [prediction];
          lene = int (length losses);
          lene2 = (if lene < int rem then - 1 else lene - int rem)
      in andthen (collect_preds losses batch_num (rev [lene2 + 1 .. lene - 1]) preds)
           (\<lambda>preds. Inr (mean preds)))"

subsection \<open>The best-model selection of \<^verbatim>\<open>train\<close>\<close>

text \<open>\<^verbatim>\<open>np.argmax\<close>: the first index of a maximum; \<^verbatim>\<open>ValueError\<close> on an empty list.\<close>

fun argmax :: "real list \<Rightarrow> nat option" where
  "argmax [] = None"
| "argmax (x # xs) =
     (case argmax xs of
        None \<Rightarrow> Some 0
      | Some i \<Rightarrow> if x < xs ! i then Some (Suc i) else Some 0)"

text \<open>\<^verbatim>\<open>self.best_loss > val_loss\<close>, with \<open>None\<close> for infinity.\<close>

fun exceeds :: "real option \<Rightarrow> real \<Rightarrow> bool" where
  "exceeds None v = True"
| "exceeds (Some b) v = (b > v)"

definition select_best :: "'b config \<Rightarrow> real \<Rightarrow> ('b, 'm, 'o, 'h) trainer \<Rightarrow> ('b, 'm, 'o, 'h) result" where
  "select_best cfg val_loss t =
     (if ensembleModel cfg then
        (if length (best_losses t) < remember cfg then
           (let t1 = t\<lparr>best_losses := best_losses t @ [val_loss]\<rparr>
            in Inr (t1\<lparr>best_model_slots :=
                         (best_model_slots t1)(length (best_losses t1) - 1 \<mapsto> model t1)\<rparr>))
         else
           (case argmax (best_losses t) of
              None \<Rightarrow> Inl (ValueError, t)
            | Some bad_loss \<Rightarrow>
                if best_losses t ! bad_loss > val_loss then
                  Inr (t\<lparr>best_losses := (best_losses t)[bad_loss := val_loss],
                         best_model_slots := (best_model_slots t)(bad_loss \<mapsto> model t)\<rparr>)
                else Inr t))
      else
        (if exceeds (best_loss t) val_loss then
           Inr (t\<lparr>best_loss := Some val_loss, best_model_file := Some (model t)\<rparr>)
         else Inr t))"

subsection \<open>\<^verbatim>\<open>train\<close>: the batch loop\<close>

text \<open>
  One pass through the body of \<^verbatim>\<open>for train_batch in train_iter\<close>. The loop variables
  are \<open>(step_num, loss_sum, batch_num)\<close>.
\<close>

definition train_batch_step :: "('b, 'm, 'o) collab \<Rightarrow> 'b config \<Rightarrow> 'b \<Rightarrow> nat \<times> real \<times> nat \<Rightarrow>
    ('b, 'm, 'o, 'h) trainer \<Rightarrow>
    (error \<times> ('b, 'm, 'o, 'h) trainer) + (flow \<times> (nat \<times> real \<times> nat) \<times> ('b, 'm, 'o, 'h) trainer)" where
  "train_batch_step env cfg train_batch vars t0 =
     (case vars of (step_num0, loss_sum0, batch_num0) \<Rightarrow>
      let batch_num = batch_num0 + 1;
          step_num = step_num0 + 1
      in andthen (run_hooks (OnBatchBegin train_batch) t0) (\<lambda>t1.
         let t2 = t1\<lparr>trace := trace t1 @ [ModelCall train_batch]\<rparr>
         in andthen (raised_in t2 (forward env (model t2) train_batch)) (\<lambda>result.
            andthen (raised_in t2 (loss_fn env train_batch result)) (\<lambda>l.
            let loss = l / real (n_acc_steps cfg);
                t3 = t2\<lparr>model := backward env train_batch result loss (model t2)\<rparr>;
                loss_sum = loss_sum0 + loss
            in if step_num = n_acc_steps cfg \<or> batch_num = length (train_loader cfg) then
                 andthen (raised_in t3 (opt_step env (optimizer t3) (model t3))) (\<lambda>(opt, mdl).
                 let t4 = t3\<lparr>optimizer := opt, model := mdl,
                             trace := trace t3 @ [OptimizerStep]\<rparr>;
                     step_num = 0;
                     t5 = t4\<lparr>step := step t4 + 1\<rparr>
                 in andthen (run_hooks (OnBatchEnd train_batch result loss_sum) t5) (\<lambda>t6.
                    if stop t6 then Inr (Break, (step_num, loss_sum, batch_num), t6)
                    else Inr (Continue, (step_num, 0, batch_num),
                              t6\<lparr>model := zero_grad env (model t6),
                                 trace := trace t6 @ [ZeroGrad]\<rparr>)))
               else Inr (Continue, (step_num, loss_sum, batch_num), t3)))))"

fun batch_loop :: "('b, 'm, 'o) collab \<Rightarrow> 'b config \<Rightarrow> 'b list \<Rightarrow> nat \<times> real \<times> nat \<Rightarrow>
    ('b, 'm, 'o, 'h) trainer \<Rightarrow> ('b, 'm, 'o, 'h) result" where
  "batch_loop env cfg [] vars t = Inr t"
| "batch_loop env cfg (train_batch # rest) vars t =
     andthen (train_batch_step env cfg train_batch vars t) (\<lambda>(fl, vars', t').
       case fl of Break \<Rightarrow> Inr t' | Continue \<Rightarrow> batch_loop env cfg rest vars' t')"

subsection \<open>\<^verbatim>\<open>train\<close>: the validation pass\<close>

text \<open>
  The prediction that replaces \<^verbatim>\<open>val_result['y']\<close> in ensemble mode:
  \<^verbatim>\<open>if self.epoch == 1: pred = prediction\<close>, else the call of \<^verbatim>\<open>calc_pred\<close>, which
  reads \<^verbatim>\<open>self.epoch_losses\<close>.
\<close>

definition ensemble_pred :: "'b config \<Rightarrow> real \<Rightarrow> nat \<Rightarrow> ('b, 'm, 'o, 'h) trainer \<Rightarrow>
    (error \<times> ('b, 'm, 'o, 'h) trainer) + real" where
  "ensemble_pred cfg prediction batch_num t =
     (if epoch t = 1 then Inr prediction
      else (case epoch_losses t of
              None \<Rightarrow> Inl (AttributeError, t)
            | Some el \<Rightarrow> raised_in t (calc_pred prediction el batch_num (remember cfg))))"

text \<open>
  One pass through the body of \<^verbatim>\<open>for val_batch in self.validation_loader\<close>. The loop
  variables are \<open>(val_loss, n_val, batch_num, batch_losses)\<close>; the last two are used in
  ensemble mode only.
\<close>

definition val_batch_step :: "('b, 'm, 'o) collab \<Rightarrow> 'b config \<Rightarrow> 'b \<Rightarrow>
    real \<times> nat \<times> nat \<times> real list \<Rightarrow> ('b, 'm, 'o, 'h) trainer \<Rightarrow>
    (error \<times> ('b, 'm, 'o, 'h) trainer) + ((real \<times> nat \<times> nat \<times> real list) \<times> ('b, 'm, 'o, 'h) trainer)" where
  "val_batch_step env cfg val_batch vars t0 =
     (case vars of (val_loss0, n_val0, batch_num0, batch_losses0) \<Rightarrow>
      let vs = vsize env val_batch;
          n_val = n_val0 + vs
      in andthen (run_hooks OnValidationBatchBegin t0) (\<lambda>t1.
         let t2 = t1\<lparr>trace := trace t1 @ [ModelCall val_batch]\<rparr>
         in andthen (raised_in t2 (forward env (model t2) val_batch)) (\<lambda>prediction.
            andthen
              (if ensembleModel cfg then
                 andthen (ensemble_pred cfg prediction batch_num0 t2)
                   (\<lambda>pred. Inr (pred, batch_num0 + 1, batch_losses0 @ [prediction]))
               else Inr (prediction, batch_num0, batch_losses0))
              (\<lambda>(val_result, batch_num, batch_losses).
            andthen (raised_in t2 (loss_fn env val_batch val_result)) (\<lambda>val_batch_loss.
            let val_loss = (if loss_is_normalized cfg then val_loss0 + val_batch_loss * real vs
                            else val_loss0 + val_batch_loss)
            in andthen (run_hooks (OnValidationBatchEnd val_batch val_result) t2) (\<lambda>t3.
               Inr ((val_loss, n_val, batch_num, batch_losses), t3)))))))"

fun val_loop :: "('b, 'm, 'o) collab \<Rightarrow> 'b config \<Rightarrow> 'b list \<Rightarrow> real \<times> nat \<times> nat \<times> real list \<Rightarrow>
    ('b, 'm, 'o, 'h) trainer \<Rightarrow>
    (error \<times> ('b, 'm, 'o, 'h) trainer) + ((real \<times> nat \<times> nat \<times> real list) \<times> ('b, 'm, 'o, 'h) trainer)" where
  "val_loop env cfg [] vars t = Inr (vars, t)"
| "val_loop env cfg (val_batch # rest) vars t =
     andthen (val_batch_step env cfg val_batch vars t) (\<lambda>(vars', t'). val_loop env cfg rest vars' t')"

text \<open>
  The block under \<^verbatim>\<open>if self.epoch % self.validation_interval == 0 or self._stop\<close>.
  With no validation batch, \<^verbatim>\<open>val_loss /= n_val\<close> divides the Python float \<^verbatim>\<open>0.0\<close> by
  the integer 0 and raises. (With batches that are all empty the division is numpy's and
  gives \<^verbatim>\<open>nan\<close>; here it gives 0.)
\<close>

definition validation :: "('b, 'm, 'o) collab \<Rightarrow> 'b config \<Rightarrow> ('b, 'm, 'o, 'h) trainer \<Rightarrow>
    ('b, 'm, 'o, 'h) result" where
  "validation env cfg t0 =
     andthen (run_hooks OnValidationBegin t0) (\<lambda>t1.
     andthen (val_loop env cfg (validation_loader cfg) (0, 0, 0, []) t1)
       (\<lambda>((val_loss0, n_val, batch_num, batch_losses), t2).
     andthen
       (if loss_is_normalized cfg then
          (if validation_loader cfg = [] then Inl (ZeroDivisionError, t2)
           else Inr (val_loss0 / real n_val))
        else Inr val_loss0) (\<lambda>val_loss.
     andthen (select_best cfg val_loss t2) (\<lambda>t3.
     andthen (run_hooks (OnValidationEnd val_loss) t3) (\<lambda>t4.
     if ensembleModel cfg then
       (case epoch_losses t4 of
          None \<Rightarrow> Inl (AttributeError, t4)
        | Some el \<Rightarrow> Inr (t4\<lparr>epoch_losses := Some (el @ [batch_losses])\<rparr>))
     else Inr t4)))))"

subsection \<open>\<^verbatim>\<open>train\<close>: the epoch loop and the whole method\<close>

text \<open>\<^verbatim>\<open>if self.epoch % k == 0: ...\<close>; the remainder by 0 raises.\<close>

definition every :: "nat \<Rightarrow> bool \<Rightarrow> (('b, 'm, 'o, 'h) trainer \<Rightarrow> ('b, 'm, 'o, 'h) result) \<Rightarrow>
    ('b, 'm, 'o, 'h) trainer \<Rightarrow> ('b, 'm, 'o, 'h) result" where
  "every k also_if f t =
     (if k = 0 then Inl (ZeroDivisionError, t)
      else if epoch t mod k = 0 \<or> also_if then f t
      else Inr t)"

text \<open>One pass through the body of \<^verbatim>\<open>for _ in range(n_epochs)\<close>.\<close>

definition train_epoch :: "('b, 'm, 'o) collab \<Rightarrow> 'b config \<Rightarrow> ('b, 'm, 'o, 'h) trainer \<Rightarrow>
    (error \<times> ('b, 'm, 'o, 'h) trainer) + (flow \<times> ('b, 'm, 'o, 'h) trainer)" where
  "train_epoch env cfg t0 =
     (let t1 = t0\<lparr>epoch := epoch t0 + 1\<rparr>
      in andthen (run_hooks OnEpochBegin t1) (\<lambda>t2.
         if stop t2 then Inr (Break, t2\<lparr>epoch := epoch t2 - 1\<rparr>)
         else
           (let t3 = t2\<lparr>model := zero_grad env (model t2), trace := trace t2 @ [ZeroGrad]\<rparr>
            in andthen (batch_loop env cfg (train_loader cfg) (0, 0, 0) t3) (\<lambda>t4.
               andthen (every (checkpoint_interval cfg) False (\<lambda>t. Inr (store_checkpoint cfg t)) t4) (\<lambda>t5.
               andthen (every (validation_interval cfg) (stop t5) (validation env cfg) t5) (\<lambda>t6.
               andthen (run_hooks OnEpochEnd t6) (\<lambda>t7.
               if stop t7 then Inr (Break, t7) else Inr (Continue, t7))))))))"

fun epoch_loop :: "('b, 'm, 'o) collab \<Rightarrow> 'b config \<Rightarrow> nat \<Rightarrow> ('b, 'm, 'o, 'h) trainer \<Rightarrow>
    ('b, 'm, 'o, 'h) result" where
  "epoch_loop env cfg 0 t = Inr t"
| "epoch_loop env cfg (Suc n) t =
     andthen (train_epoch env cfg t) (\<lambda>(fl, t').
       case fl of Break \<Rightarrow> Inr t' | Continue \<Rightarrow> epoch_loop env cfg n t')"

text \<open>The body of the \<^verbatim>\<open>try\<close> block.\<close>

definition train_body :: "('b, 'm, 'o) collab \<Rightarrow> 'b config \<Rightarrow> nat \<Rightarrow> ('b, 'm, 'o, 'h) trainer \<Rightarrow>
    ('b, 'm, 'o, 'h) result" where
  "train_body env cfg n_epochs t =
     andthen (epoch_loop env cfg n_epochs t) (\<lambda>t1.
     andthen (run_hooks OnTrainEnds t1) (\<lambda>t2.
     Inr (store_checkpoint cfg t2)))"

text \<open>
  \<^verbatim>\<open>train(device, n_epochs)\<close>. The calls of \<^verbatim>\<open>on_train_begin\<close> stand before the
  \<^verbatim>\<open>try\<close>; the handler catches what derives from \<^verbatim>\<open>Exception\<close>.
\<close>

definition train :: "('b, 'm, 'o) collab \<Rightarrow> 'b config \<Rightarrow> nat \<Rightarrow> ('b, 'm, 'o, 'h) trainer \<Rightarrow>
    ('b, 'm, 'o, 'h) result" where
  "train env cfg n_epochs t =
     andthen (run_hooks OnTrainBegin (t\<lparr>stop := False\<rparr>)) (\<lambda>t1.
     case train_body env cfg n_epochs t1 of
       Inr t2 \<Rightarrow> Inr t2
     | Inl (e, t2) \<Rightarrow>
         if is_Exception e then
           andthen (run_hooks OnTrainFailed t2) (\<lambda>t3. Inl (e, t3))
         else Inl (e, t2))"

subsection \<open>\<^verbatim>\<open>__init__\<close>\<close>

text \<open>
  The constructor, given the checkpoint directory it finds (\<open>None\<close>: the path does not
  exist). A trainer is a record, so the branch that restores starts from a record whose
  counters are filled in and then overwritten by the setter; \<^verbatim>\<open>epoch_losses\<close> is
  assigned in the other branch only.
\<close>

definition init_trainer :: "'b config \<Rightarrow> 'm \<Rightarrow> 'o \<Rightarrow> ('b, 'h) hook list \<Rightarrow>
    (nat \<times> ('m, 'o, 'h) state_dict) list option \<Rightarrow> ('b, 'm, 'o, 'h) result" where
  "init_trainer cfg mdl opt hs dir =
     (let t = \<lparr>epoch = 0, step = 0, best_loss = None, best_losses = [], epoch_losses = None,
               stop = False, model = mdl, optimizer = opt, hooks = hs, checkpoints = [],
               best_model_file = None, best_model_slots = (\<lambda>i. None), trace = []\<rparr>
      in case dir of
           Some files \<Rightarrow> restore_checkpoint None (t\<lparr>checkpoints := files\<rparr>)
         | None \<Rightarrow> Inr (store_checkpoint cfg (t\<lparr>epoch_losses := Some []\<rparr>)))"

subsection \<open>Observing a run\<close>

text \<open>The exception a call ended with, and the trainer it left behind.\<close>

definition error_of :: "(error \<times> 's) + 's \<Rightarrow> error option" where
  "error_of r = (case r of Inl (e, t) \<Rightarrow> Some e | Inr t \<Rightarrow> None)"

definition final :: "(error \<times> 's) + 's \<Rightarrow> 's" where
  "final r = (case r of Inl (e, t) \<Rightarrow> t | Inr t \<Rightarrow> t)"

text \<open>The calls of one callback on the hooks \<open>a, a + 1, \<dots>, a + k - 1\<close>, in this order.\<close>

definition hook_calls :: "'b callback \<Rightarrow> nat \<Rightarrow> nat \<Rightarrow> 'b action list" where
  "hook_calls cb a k = map (\<lambda>i. HookCall i cb) [a..<a + k]"

subsection \<open>Sample collaborators and trainers\<close>

text \<open>
  Batches, model and optimizer states are numbers here. The model predicts its own
  state, the loss is the prediction, an optimizer step counts both states up.
\<close>

definition sample_env :: "(nat, nat, nat) collab" where
  "sample_env = \<lparr>forward = (\<lambda>m b. Inr (real m)), loss_fn = (\<lambda>b y. Inr y),
     backward = (\<lambda>b y l m. m), opt_step = (\<lambda>opt m. Inr (Suc opt, Suc m)),
     zero_grad = (\<lambda>m. m), vsize = (\<lambda>b. 1)\<rparr>"

definition sample_cfg :: "nat config" where
  "sample_cfg = \<lparr>train_loader = [0, 1, 2], validation_loader = [0], keep_n_checkpoints = 3,
     checkpoint_interval = 1, validation_interval = 1, loss_is_normalized = False,
     n_acc_steps = 2, remember = 2, ensembleModel = False\<rparr>"

definition ensemble_cfg :: "nat config" where
  "ensemble_cfg = sample_cfg\<lparr>ensembleModel := True\<rparr>"

definition sample_trainer :: "(nat, nat, nat, nat) trainer" where
  "sample_trainer = \<lparr>epoch = 0, step = 0, best_loss = None, best_losses = [],
     epoch_losses = Some [], stop = False, model = 0, optimizer = 0, hooks = [],
     checkpoints = [], best_model_file = None, best_model_slots = (\<lambda>i. None), trace = []\<rparr>"

text \<open>A hook that counts the calls it receives and leaves the stop flag alone.\<close>

definition counting_hook :: "nat \<Rightarrow> (nat, nat) hook" where
  "counting_hook n = \<lparr>react = (\<lambda>cb v s. Inr (Suc s, v_stop v)), hstate = n\<rparr>"

text \<open>A trainer in its third epoch, whose hook has been called five times.\<close>

definition stored_run :: "(nat, nat, nat, nat) trainer" where
  "stored_run = sample_trainer\<lparr>epoch := 3, step := 7, best_loss := Some 2, model := 11,
     optimizer := 13, hooks := [counting_hook 5]\<rparr>"

text \<open>A trainer in ensemble mode after two validated epochs.\<close>

definition third_epoch :: "(nat, nat, nat, nat) trainer" where
  "third_epoch = sample_trainer\<lparr>epoch := 3, epoch_losses := Some [[1], [2]],
     best_losses := [3, 1], model := 6\<rparr>"

subsection \<open>Sequences of stores\<close>

text \<open>
  The directory after a series of calls of \<^verbatim>\<open>store_checkpoint\<close>. \<open>ts\<close> are the trainers
  as they are at the calls, in any state; each call finds the directory as the call
  before left it.
\<close>

definition store_all :: "'b config \<Rightarrow> ('b, 'm, 'o, 'h) trainer list \<Rightarrow>
    (nat \<times> ('m, 'o, 'h) state_dict) list \<Rightarrow> (nat \<times> ('m, 'o, 'h) state_dict) list" where
  "store_all cfg ts dir =
     fold (\<lambda>t d. checkpoints (store_checkpoint cfg (t\<lparr>checkpoints := d\<rparr>))) ts dir"

text \<open>
  The files \<open>ks\<close> are what retention \<open>K\<close> keeps of the epochs \<open>S\<close>: no file twice, only
  files of \<open>S\<close>, \<open>K\<close> of them or all of \<open>S\<close> if these are fewer, and every epoch of \<open>S\<close>
  without a file is lower than every epoch with one.
\<close>

definition retains :: "nat \<Rightarrow> nat set \<Rightarrow> nat list \<Rightarrow> bool" where
  "retains K S ks \<longleftrightarrow>
     distinct ks \<and> set ks \<subseteq> S \<and> length ks = min (card S) K \<and>
     (\<forall>d\<in>set ks. \<forall>s\<in>S - set ks. s < d)"

definition five_stores :: "(nat, nat, nat, nat) trainer list" where
  "five_stores = map (\<lambda>e. sample_trainer\<lparr>epoch := e\<rparr>) [0, 1, 2, 3, 4]"

subsection \<open>What a stretch of a run adds to the trace\<close>

text \<open>The actions of the epoch loop: all but the calls made before and after it.\<close>

fun loop_action :: "'b action \<Rightarrow> bool" where
  "loop_action (HookCall i OnTrainBegin) = False"
| "loop_action (HookCall i OnTrainEnds) = False"
| "loop_action (HookCall i OnTrainFailed) = False"
| "loop_action a = True"

text \<open>
  \<open>t'\<close> comes after \<open>t\<close> in a run: the trace has grown by actions that satisfy \<open>P\<close>, and the
  registered callbacks are the same.
\<close>

definition extends :: "('b action \<Rightarrow> bool) \<Rightarrow> ('b, 'm, 'o, 'h) trainer \<Rightarrow> ('b, 'm, 'o, 'h) trainer \<Rightarrow> bool" where
  "extends P t t' \<longleftrightarrow>
     (\<exists>new. trace t' = trace t @ new \<and> list_all P new) \<and>
     map react (hooks t') = map react (hooks t)"

text \<open>
  \<open>Q\<close> holds of the trainer a call leaves behind, whether it returns (\<open>p\<close> picks the trainer
  out of what it returns) or raises.
\<close>

definition post :: "('s \<Rightarrow> bool) \<Rightarrow> ('a \<Rightarrow> 's) \<Rightarrow> (error \<times> 's) + 'a \<Rightarrow> bool" where
  "post Q p r = (case r of Inl (e, s) \<Rightarrow> Q s | Inr a \<Rightarrow> Q (p a))"

subsection \<open>Sample hooks and failures\<close>

text \<open>
  A hook that sets the stop flag when an epoch begins, a hook that raises when it is told
  of a failure, and a model that raises.
\<close>

definition stopping_hook :: "(nat, nat) hook" where
  "stopping_hook = \<lparr>react = (\<lambda>cb v s. case cb of OnEpochBegin \<Rightarrow> Inr (Suc s, True)
                                           | _ \<Rightarrow> Inr (Suc s, v_stop v)), hstate = 0\<rparr>"

definition failing_hook :: "(nat, nat) hook" where
  "failing_hook = \<lparr>react = (\<lambda>cb v s. case cb of OnTrainFailed \<Rightarrow> Inl (Raised 7)
                                          | _ \<Rightarrow> Inr (Suc s, v_stop v)), hstate = 0\<rparr>"

definition broken_env :: "(nat, nat, nat) collab" where
  "broken_env = sample_env\<lparr>forward := (\<lambda>m b. Inl (Raised 1))\<rparr>"

definition stopper :: "(nat, nat, nat, nat) trainer" where
  "stopper = sample_trainer\<lparr>hooks := [stopping_hook]\<rparr>"

definition two_counters :: "(nat, nat, nat, nat) trainer" where
  "two_counters = sample_trainer\<lparr>hooks := [counting_hook 0, counting_hook 0]\<rparr>"

definition failing_first :: "(nat, nat, nat, nat) trainer" where
  "failing_first = sample_trainer\<lparr>hooks := [failing_hook, counting_hook 0]\<rparr>"

subsection \<open>Accumulation windows\<close>

text \<open>
  The trace of a batch loop is compared up to the numbers handed to \<^verbatim>\<open>on_batch_end\<close>
  (the result of the model and the summed loss), which \<open>erase\<close> sets to 0.
\<close>

fun erase :: "'b action \<Rightarrow> 'b action" where
  "erase (HookCall i (OnBatchEnd b y l)) = HookCall i (OnBatchEnd b 0 0)"
| "erase a = a"








subsection \<open>Comparing two runs\<close>

text \<open>
  Two trainers are in the same state of a run when they agree on the counters, the best
  losses, the stop flag, model, optimizer, hooks and checkpoint directory. The trace,
  the history of predictions and the best-model files are left out: \<^verbatim>\<open>train\<close> only
  writes them (the history is read in ensemble mode only).
\<close>

definition same_run :: "('b, 'm, 'o, 'h) trainer \<Rightarrow> ('b, 'm, 'o, 'h) trainer \<Rightarrow> bool" where
  "same_run t1 t2 \<longleftrightarrow>
     epoch t1 = epoch t2 \<and> step t1 = step t2 \<and> best_loss t1 = best_loss t2 \<and>
     best_losses t1 = best_losses t2 \<and> stop t1 = stop t2 \<and> model t1 = model t2 \<and>
     optimizer t1 = optimizer t2 \<and> hooks t1 = hooks t2 \<and> checkpoints t1 = checkpoints t2"

text \<open>Two calls end alike: with the same exception, or with results related by \<open>R\<close>.\<close>

definition same_outcome :: "('a \<Rightarrow> 'a \<Rightarrow> bool) \<Rightarrow>
    (error \<times> ('b, 'm, 'o, 'h) trainer) + 'a \<Rightarrow> (error \<times> ('b, 'm, 'o, 'h) trainer) + 'a \<Rightarrow> bool" where
  "same_outcome R r1 r2 =
     (case r1 of
        Inl (e1, t1) \<Rightarrow> (case r2 of Inl (e2, t2) \<Rightarrow> e1 = e2 \<and> same_run t1 t2 | Inr a2 \<Rightarrow> False)
      | Inr a1 \<Rightarrow> (case r2 of Inl x \<Rightarrow> False | Inr a2 \<Rightarrow> R a1 a2))"





subsection \<open>The names of the checkpoint files\<close>

text \<open>
  \<^verbatim>\<open>"checkpoint-" + str(self.epoch) + ".pth.tar"\<close>, and the way back,
  \<^verbatim>\<open>int(f.split(".")[0].split("-")[-1])\<close>, with the two tests on names that
  \<^verbatim>\<open>store_checkpoint\<close> and \<^verbatim>\<open>restore_checkpoint\<close> make. \<open>int_of_digits\<close> is Python's
  \<^verbatim>\<open>int\<close> on strings of decimal digits; Python reads signs, blanks and underscores as
  well, which no name of a checkpoint contains. These definitions are what lets a file
  stand for its epoch in \<open>checkpoints\<close>: see \<open>epoch_of_checkpoint_name\<close> below.
\<close>

definition digit_char :: "nat \<Rightarrow> char" where
  "digit_char d = char_of (48 + d)"

fun str_nat :: "nat \<Rightarrow> string" where
  "str_nat n = (if n < 10 then [digit_char n] else str_nat (n div 10) @ [digit_char (n mod 10)])"

definition checkpoint_name :: "nat \<Rightarrow> string" where
  "checkpoint_name e = ''checkpoint-'' @ str_nat e @ ''.pth.tar''"

definition first_field :: "char \<Rightarrow> string \<Rightarrow> string" where
  "first_field c s = takeWhile (\<lambda>x. x \<noteq> c) s"

definition last_field :: "char \<Rightarrow> string \<Rightarrow> string" where
  "last_field c s = rev (takeWhile (\<lambda>x. x \<noteq> c) (rev s))"

definition is_digit :: "char \<Rightarrow> bool" where
  "is_digit c \<longleftrightarrow> 48 \<le> (of_char c :: nat) \<and> (of_char c :: nat) \<le> 57"

definition int_of_digits :: "string \<Rightarrow> error + nat" where
  "int_of_digits s =
     (if s \<noteq> [] \<and> list_all is_digit s
      then Inr (fold (\<lambda>c n. 10 * n + (of_char c - 48)) s 0)
      else Inl ValueError)"

definition epoch_of_name :: "string \<Rightarrow> error + nat" where
  "epoch_of_name f = int_of_digits (last_field CHR ''-'' (first_field CHR ''.'' f))"

definition ends_with :: "string \<Rightarrow> string \<Rightarrow> bool" where
  "ends_with suffix s \<longleftrightarrow> length suffix \<le> length s \<and> drop (length s - length suffix) s = suffix"

definition starts_with :: "string \<Rightarrow> string \<Rightarrow> bool" where
  "starts_with prefix s \<longleftrightarrow> take (length prefix) s = prefix"

section \<open>Properties\<close>

subsection \<open>Sequencing\<close>

lemma andthen_Inl [simp]: "andthen (Inl x) f = Inl x"
  by (simp add: andthen_def)

lemma andthen_Inr [simp]: "andthen (Inr a) f = f a"
  by (simp add: andthen_def)

lemma andthen_eq_Inr: "andthen r f = Inr b \<longleftrightarrow> (\<exists>a. r = Inr a \<and> f a = Inr b)"
  by (cases r) simp_all

lemma andthen_eq_Inl: "andthen r f = Inl x \<longleftrightarrow> r = Inl x \<or> (\<exists>a. r = Inr a \<and> f a = Inl x)"
  by (cases r) simp_all

lemma raised_in_Inl [simp]: "raised_in t (Inl e) = Inl (e, t)"
  by (simp add: raised_in_def)

lemma raised_in_Inr [simp]: "raised_in t (Inr a) = Inr a"
  by (simp add: raised_in_def)

lemma raised_in_eq_Inr: "raised_in t r = Inr a \<longleftrightarrow> r = Inr a"
  by (cases r) simp_all

lemma raised_in_eq_Inl: "raised_in t r = Inl x \<longleftrightarrow> (\<exists>e. r = Inl e \<and> x = (e, t))"
  by (cases r) auto

lemma collect_preds_ok:
  "\<forall>i\<in>set is. 0 \<le> i \<and> nat i < length h \<and> b < length (h ! nat i) \<Longrightarrow>
   collect_preds h b is acc = Inr (acc @ map (\<lambda>i. h ! nat i ! b) is)"
  by (induction "is" arbitrary: acc) (simp_all add: item_def)

lemma rev_upto_take:
  "map (\<lambda>i. h ! nat i) (rev [int (length h) - int k .. int (length h) - 1]) = take k (rev h)" if "k \<le> length h"
  using that
proof (induction k)
  case 0
  then show ?case by simp
next
  case (Suc k)
  then have k: "k < length h" by simp
  have "[int (length h) - int (Suc k) .. int (length h) - 1] =
        (int (length h) - int (Suc k)) # [int (length h) - int k .. int (length h) - 1]"
    using k by (subst upto_rec1) (simp_all add: algebra_simps)
  moreover have "nat (int (length h) - int (Suc k)) = length h - Suc k"
    by simp
  moreover have "take (Suc k) (rev h) = take k (rev h) @ [h ! (length h - Suc k)]"
    using k by (simp add: take_Suc_conv_app_nth rev_nth)
  ultimately show ?case using Suc by simp
qed

lemma calc_pred_formula:
  assumes "\<forall>row\<in>set (take (min (r - 1) (length h)) (rev h)). b < length row"
  shows "calc_pred p h b r = Inr (mean (p # map (\<lambda>row. row ! b) (take (min (r - 1) (length h)) (rev h))))"
proof -
  define k where "k = min (r - 1) (length h)"
  have kle: "k \<le> length h" by (simp add: k_def)
  have lo: "[(if int (length h) < int r then - 1 else int (length h) - int r) + 1 .. int (length h) - 1]
      = [int (length h) - int k .. int (length h) - 1]"
  proof (cases "r = 0")
    case True
    then show ?thesis by (simp add: k_def)
  next
    case False
    then have "(if int (length h) < int r then - 1 else int (length h) - int r) + 1 = int (length h) - int k"
      by (auto simp: k_def min_def)
    then show ?thesis by simp
  qed
  have rows: "map (\<lambda>i. h ! nat i) (rev [int (length h) - int k .. int (length h) - 1]) = take k (rev h)"
    by (rule rev_upto_take [OF kle])
  have idx: "\<forall>i\<in>set (rev [int (length h) - int k .. int (length h) - 1]).
               0 \<le> i \<and> nat i < length h \<and> b < length (h ! nat i)"
  proof
    fix i assume i: "i \<in> set (rev [int (length h) - int k .. int (length h) - 1])"
    then have r: "0 \<le> i" "nat i < length h" using kle by auto
    from i have "h ! nat i \<in> set (map (\<lambda>i. h ! nat i) (rev [int (length h) - int k .. int (length h) - 1]))"
      by (simp del: set_rev upto.simps) 
    then have "h ! nat i \<in> set (take k (rev h))" by (simp only: rows)
    with assms have "b < length (h ! nat i)" by (simp add: k_def)
    with r show "0 \<le> i \<and> nat i < length h \<and> b < length (h ! nat i)" by simp
  qed
  have sel: "map (\<lambda>row. row ! b) (take k (rev h))
        = map (\<lambda>i. h ! nat i ! b) (rev [int (length h) - int k .. int (length h) - 1])"
    by (simp only: rows [symmetric] map_map comp_def)
  have "collect_preds h b (rev [int (length h) - int k .. int (length h) - 1]) [p]
        = Inr ([p] @ map (\<lambda>i. h ! nat i ! b) (rev [int (length h) - int k .. int (length h) - 1]))"
    by (rule collect_preds_ok [OF idx])
  then have "collect_preds h b (rev [int (length h) - int k .. int (length h) - 1]) [p]
        = Inr (p # map (\<lambda>row. row ! b) (take k (rev h)))"
    by (simp only: sel append.simps)
  then show ?thesis
    unfolding calc_pred_def Let_def lo k_def by (simp only: andthen_Inr)
qed

subsection \<open>What a round of hook calls changes\<close>

lemma hook_calls_0 [simp]: "hook_calls cb a 0 = []"
  by (simp add: hook_calls_def)

lemma hook_calls_Suc: "hook_calls cb a (Suc k) = HookCall a cb # hook_calls cb (Suc a) k"
  by (simp add: hook_calls_def upt_rec)

lemma length_hook_calls [simp]: "length (hook_calls cb a k) = k"
  by (simp add: hook_calls_def)

lemma call_hooks_Inr:
  "call_hooks cb done todo t = Inr t' \<Longrightarrow>
   \<exists>hs fl. t' = t\<lparr>hooks := hs, stop := fl,
                  trace := trace t @ hook_calls cb (length done) (length todo)\<rparr>
     \<and> map react hs = map react (done @ todo)"
proof (induction todo arbitrary: "done" t)
  case Nil
  then show ?case by (auto intro!: exI [of _ "stop t"])
next
  case (Cons h todo)
  from Cons.prems obtain s flag where
    r: "react h cb (view t) (hstate h) = Inr (s, flag)" and
    c: "call_hooks cb (done @ [h\<lparr>hstate := s\<rparr>]) todo
          (t\<lparr>trace := trace t @ [HookCall (length done) cb], stop := flag\<rparr>) = Inr t'"
    by (auto simp: Let_def split: sum.splits)
  from Cons.IH [OF c] obtain hs fl where
    "t' = t\<lparr>trace := trace t @ [HookCall (length done) cb], stop := flag\<rparr>
            \<lparr>hooks := hs, stop := fl,
             trace := trace (t\<lparr>trace := trace t @ [HookCall (length done) cb], stop := flag\<rparr>)
                      @ hook_calls cb (length (done @ [h\<lparr>hstate := s\<rparr>])) (length todo)\<rparr>"
    and "map react hs = map react ((done @ [h\<lparr>hstate := s\<rparr>]) @ todo)"
    by blast
  then show ?case
    by (intro exI [of _ hs] exI [of _ fl]) (simp add: hook_calls_Suc)
qed

lemma call_hooks_Inl:
  "call_hooks cb done todo t = Inl (e, t') \<Longrightarrow>
   \<exists>hs fl k. t' = t\<lparr>hooks := hs, stop := fl,
                  trace := trace t @ hook_calls cb (length done) (Suc k)\<rparr>
     \<and> k < length todo \<and> map react hs = map react (done @ todo)"
proof (induction todo arbitrary: "done" t)
  case Nil
  then show ?case by simp
next
  case (Cons h todo)
  show ?case
  proof (cases "react h cb (view t) (hstate h)")
    case (Inl e')
    with Cons.prems have "t' = t\<lparr>hooks := done @ h # todo, stop := stop t,
        trace := trace t @ hook_calls cb (length done) (Suc 0)\<rparr>"
      by (auto simp: Let_def hook_calls_Suc)
    then show ?thesis by (intro exI [of _ "done @ h # todo"] exI [of _ "stop t"] exI [of _ 0]) simp
  next
    case (Inr p)
    obtain s flag where p: "p = (s, flag)" by (cases p)
    with Inr Cons.prems have
      c: "call_hooks cb (done @ [h\<lparr>hstate := s\<rparr>]) todo
          (t\<lparr>trace := trace t @ [HookCall (length done) cb], stop := flag\<rparr>) = Inl (e, t')"
      by (simp add: Let_def)
    from Cons.IH [OF c] obtain hs fl k where
      "t' = t\<lparr>trace := trace t @ [HookCall (length done) cb], stop := flag\<rparr>
            \<lparr>hooks := hs, stop := fl,
             trace := trace (t\<lparr>trace := trace t @ [HookCall (length done) cb], stop := flag\<rparr>)
                      @ hook_calls cb (length (done @ [h\<lparr>hstate := s\<rparr>])) (Suc k)\<rparr>"
      and "k < length todo" and "map react hs = map react ((done @ [h\<lparr>hstate := s\<rparr>]) @ todo)"
      by blast
    then show ?thesis
      by (intro exI [of _ hs] exI [of _ fl] exI [of _ "Suc k"]) (simp add: hook_calls_Suc)
  qed
qed

lemma run_hooks_Inr:
  "run_hooks cb t = Inr t' \<Longrightarrow>
   \<exists>hs fl. t' = t\<lparr>hooks := hs, stop := fl, trace := trace t @ hook_calls cb 0 (length (hooks t))\<rparr>
     \<and> map react hs = map react (hooks t)"
  unfolding run_hooks_def by (drule call_hooks_Inr) simp

lemma run_hooks_Inl:
  "run_hooks cb t = Inl (e, t') \<Longrightarrow>
   \<exists>hs fl k. t' = t\<lparr>hooks := hs, stop := fl, trace := trace t @ hook_calls cb 0 (Suc k)\<rparr>
     \<and> k < length (hooks t) \<and> map react hs = map react (hooks t)"
  unfolding run_hooks_def by (drule call_hooks_Inl) simp

subsection \<open>The validation pass\<close>

lemma run_hooks_keeps:
  assumes "run_hooks cb t = Inr t'"
  shows "epoch t' = epoch t" "step t' = step t" "best_loss t' = best_loss t"
    "best_losses t' = best_losses t" "epoch_losses t' = epoch_losses t" "model t' = model t"
    "optimizer t' = optimizer t" "checkpoints t' = checkpoints t"
    "best_model_file t' = best_model_file t" "best_model_slots t' = best_model_slots t"
    "map react (hooks t') = map react (hooks t)"
    "trace t' = trace t @ hook_calls cb 0 (length (hooks t))"
  using run_hooks_Inr [OF assms] by auto

lemma val_batch_step_ensemble:
  assumes "val_batch_step env cfg b (vl, nv, bn, bl) t = Inr ((vl', nv', bn', bl'), t')"
    and "ensembleModel cfg"
  shows "\<exists>p. forward env (model t) b = Inr p \<and> bl' = bl @ [p]"
    and "epoch_losses t' = epoch_losses t" and "model t' = model t"
  using assms
  by (auto simp: val_batch_step_def Let_def andthen_eq_Inr raised_in_eq_Inr
      dest!: run_hooks_Inr split: prod.splits)

lemma val_batch_step_keeps:
  assumes "val_batch_step env cfg b vars t = Inr (vars', t')"
  shows "best_losses t' = best_losses t" "best_loss t' = best_loss t" "epoch t' = epoch t"
    "best_model_slots t' = best_model_slots t"
  using assms
  by (auto simp: val_batch_step_def Let_def andthen_eq_Inr raised_in_eq_Inr
      dest!: run_hooks_Inr split: prod.splits if_splits)

lemma val_loop_ensemble:
  assumes "val_loop env cfg bs (vl, nv, bn, bl) t = Inr ((vl', nv', bn', bl'), t')"
    and "ensembleModel cfg"
  shows "(\<exists>raw. bl' = bl @ raw \<and> map (forward env (model t)) bs = map Inr raw)
     \<and> epoch_losses t' = epoch_losses t \<and> model t' = model t"
  using assms
proof (induction bs arbitrary: vl nv bn bl t)
  case Nil
  then show ?case by simp
next
  case (Cons b bs)
  from Cons.prems(1) obtain vl1 nv1 bn1 bl1 t1 where
    s: "val_batch_step env cfg b (vl, nv, bn, bl) t = Inr ((vl1, nv1, bn1, bl1), t1)" and
    l: "val_loop env cfg bs (vl1, nv1, bn1, bl1) t1 = Inr ((vl', nv', bn', bl'), t')"
    by (auto simp: andthen_eq_Inr)
  from val_batch_step_ensemble [OF s Cons.prems(2)] obtain p where
    p: "forward env (model t) b = Inr p" "bl1 = bl @ [p]" "epoch_losses t1 = epoch_losses t"
      "model t1 = model t" by blast
  from Cons.IH [OF l Cons.prems(2)] obtain raw where
    "bl' = bl1 @ raw" "map (forward env (model t1)) bs = map Inr raw"
    "epoch_losses t' = epoch_losses t1" "model t' = model t1" by blast
  with p show ?case by (intro conjI exI [of _ "p # raw"]) simp_all
qed

lemma val_loop_keeps:
  assumes "val_loop env cfg bs vars t = Inr (vars', t')"
  shows "best_losses t' = best_losses t \<and> best_loss t' = best_loss t \<and> epoch t' = epoch t
     \<and> best_model_slots t' = best_model_slots t"
  using assms
proof (induction bs arbitrary: vars t)
  case Nil
  then show ?case by simp
next
  case (Cons b bs)
  from Cons.prems obtain vars1 t1 where
    s: "val_batch_step env cfg b vars t = Inr (vars1, t1)" and
    l: "val_loop env cfg bs vars1 t1 = Inr (vars', t')"
    by (auto simp: andthen_eq_Inr)
  from Cons.IH [OF l] val_batch_step_keeps [OF s] show ?case by simp
qed

lemma select_best_keeps:
  assumes "select_best cfg v t = Inr t'"
  shows "epoch_losses t' = epoch_losses t" "model t' = model t" "epoch t' = epoch t"
  using assms by (auto simp: select_best_def Let_def split: if_splits option.splits)

lemma argmax_Some:
  "xs \<noteq> [] \<Longrightarrow> \<exists>i. argmax xs = Some i \<and> i < length xs \<and> (\<forall>j<length xs. xs ! j \<le> xs ! i)
      \<and> (\<forall>j<i. xs ! j < xs ! i)"
proof (induction xs)
  case Nil
  then show ?case by simp
next
  case (Cons x xs)
  show ?case
  proof (cases "xs = []")
    case True
    then show ?thesis by simp
  next
    case False
    from Cons.IH [OF False] obtain i where
      i: "argmax xs = Some i" "i < length xs" "\<forall>j<length xs. xs ! j \<le> xs ! i" "\<forall>j<i. xs ! j < xs ! i"
      by blast
    show ?thesis
    proof (cases "x < xs ! i")
      case True
      with i show ?thesis
        by (auto simp: nth_Cons less_Suc_eq_0_disj split: nat.splits)
    next
      case False
      with i show ?thesis
        by (auto simp: nth_Cons split: nat.splits)
    qed
  qed
qed



lemma select_best_bound:
  assumes "select_best cfg v t = Inr t'" "length (best_losses t) \<le> remember cfg" "ensembleModel cfg"
  shows "length (best_losses t') \<le> remember cfg"
  using assms by (auto simp: select_best_def Let_def split: if_splits option.splits)

lemma validation_best_losses_bound:
  assumes v: "validation env cfg t = Inr t'" and b: "length (best_losses t) \<le> remember cfg"
    and e: "ensembleModel cfg"
  shows "length (best_losses t') \<le> remember cfg"
proof -
  from v e obtain t1 vars t2 v' t3 t4 h where
    h1: "run_hooks OnValidationBegin t = Inr t1" and
    l: "val_loop env cfg (validation_loader cfg) (0, 0, 0, []) t1 = Inr (vars, t2)" and
    sb: "select_best cfg v' t2 = Inr t3" and
    h2: "run_hooks (OnValidationEnd v') t3 = Inr t4" and
    t': "best_losses t' = best_losses t4"
    by (auto simp: validation_def andthen_eq_Inr split: prod.splits option.splits if_splits)
  have "length (best_losses t2) \<le> remember cfg"
    using run_hooks_keeps(4) [OF h1] val_loop_keeps [OF l] b by simp
  from select_best_bound [OF sb this e] run_hooks_keeps(4) [OF h2] t' show ?thesis by simp
qed

subsection \<open>Retention\<close>

lemma argsort_sorts:
  assumes "distinct ks"
  shows "map ((!) ks) (argsort ks) = sort ks"
proof -
  let ?zs = "zip ks [0..<length ks]"
  have pair: "ks ! snd z = fst z" if "z \<in> set (sort_key fst ?zs)" for z
    using that by (auto simp: set_zip)
  have "map ((!) ks) (argsort ks) = map (\<lambda>z. ks ! snd z) (sort_key fst ?zs)"
    by (simp add: argsort_def comp_def)
  also have "\<dots> = map fst (sort_key fst ?zs)"
    using pair by (intro map_cong) auto
  also have "\<dots> = sort ks"
  proof (rule sorted_distinct_set_unique)
    show "sorted (map fst (sort_key fst ?zs))" by simp
    have "distinct (map fst ?zs)" using assms by simp
    then have "distinct ?zs \<and> inj_on fst (set ?zs)" by (simp only: distinct_map)
    then show "distinct (map fst (sort_key fst ?zs))" by (simp add: distinct_map)
    show "sorted (sort ks)" by simp
    show "distinct (sort ks)" using assms by simp
    have "set (map fst (sort_key fst ?zs)) = set (map fst ?zs)" by (simp del: map_fst_zip)
    then show "set (map fst (sort_key fst ?zs)) = set (sort ks)" by simp
  qed
  finally show ?thesis .
qed

lemma fold_remove_checkpoints:
  "checkpoints (fold (\<lambda>i. remove_checkpoint (f i)) is t) = fold (\<lambda>i. AList.delete (f i)) is (checkpoints t)"
  "trace (fold (\<lambda>i. remove_checkpoint (f i)) is t) = trace t @ map (\<lambda>i. RemoveCheckpoint (f i)) is"
  by (induction "is" arbitrary: t) (simp_all add: remove_checkpoint_def)

lemma keys_fold_delete:
  "map fst (fold (\<lambda>i. AList.delete (f i)) is d) = filter (\<lambda>k. k \<notin> f ` set is) (map fst d)"
proof (induction "is" arbitrary: d)
  case Nil
  then show ?case by simp
next
  case (Cons i "is")
  have "map fst (fold (\<lambda>i. AList.delete (f i)) (i # is) d)
      = filter (\<lambda>k. k \<notin> f ` set is) (filter (\<lambda>k. f i \<noteq> k) (map fst d))"
    by (simp add: Cons.IH delete_keys removeAll_filter_not_eq)
  also have "\<dots> = filter (\<lambda>k. k \<notin> f ` set (i # is)) (map fst d)"
    unfolding filter_filter by (rule filter_cong) auto
  finally show ?case .
qed

lemma store_checkpoint_trace:
  "\<exists>rs. trace (store_checkpoint cfg t) = trace t @ WriteCheckpoint (epoch t) # map RemoveCheckpoint rs"
proof -
  define ks where "ks = map fst (AList.update (epoch t) (get_state_dict t) (checkpoints t))"
  show ?thesis
  proof (cases "keep_n_checkpoints cfg < length ks")
    case True
    have "map (\<lambda>i. RemoveCheckpoint (ks ! i)) (but_last (keep_n_checkpoints cfg) (argsort ks))
        = map RemoveCheckpoint (map ((!) ks) (but_last (keep_n_checkpoints cfg) (argsort ks)))"
      by simp
    with True have "trace (store_checkpoint cfg t) = trace t @ WriteCheckpoint (epoch t) #
        map RemoveCheckpoint (map ((!) ks) (but_last (keep_n_checkpoints cfg) (argsort ks)))"
      unfolding store_checkpoint_def Let_def ks_def [symmetric]
      by (simp add: fold_remove_checkpoints ks_def)
    then show ?thesis by blast
  next
    case False
    then have "trace (store_checkpoint cfg t) = trace t @ WriteCheckpoint (epoch t) # map RemoveCheckpoint []"
      by (simp add: store_checkpoint_def Let_def ks_def)
    then show ?thesis by blast
  qed
qed

lemma store_checkpoint_keys:
  assumes "distinct (map fst (checkpoints t))"
  defines "ks \<equiv> map fst (AList.update (epoch t) (get_state_dict t) (checkpoints t))"
  shows "map fst (checkpoints (store_checkpoint cfg t)) =
     (if keep_n_checkpoints cfg < length ks
      then filter (\<lambda>k. k \<notin> set (but_last (keep_n_checkpoints cfg) (sort ks))) ks
      else ks)"
proof (cases "keep_n_checkpoints cfg < length ks")
  case False
  then show ?thesis by (simp add: store_checkpoint_def Let_def ks_def)
next
  case True
  have d: "distinct ks" unfolding ks_def by (rule distinct_update [OF assms(1)])
  have "(\<lambda>i. ks ! i) ` set (but_last (keep_n_checkpoints cfg) (argsort ks))
        = set (map ((!) ks) (but_last (keep_n_checkpoints cfg) (argsort ks)))"
    by simp
  also have "map ((!) ks) (but_last (keep_n_checkpoints cfg) (argsort ks))
        = but_last (keep_n_checkpoints cfg) (map ((!) ks) (argsort ks))"
    by (simp add: but_last_def take_map)
  also have "\<dots> = but_last (keep_n_checkpoints cfg) (sort ks)"
    by (simp only: argsort_sorts [OF d])
  finally have img: "(\<lambda>i. ks ! i) ` set (but_last (keep_n_checkpoints cfg) (argsort ks))
        = set (but_last (keep_n_checkpoints cfg) (sort ks))" .
  from True show ?thesis
    unfolding store_checkpoint_def Let_def
    by (simp add: fold_remove_checkpoints keys_fold_delete img flip: ks_def)
qed

lemma prune_lowest:
  assumes d: "distinct ks" and K: "K < length ks"
  defines "low \<equiv> take (length ks - K) (sort ks)"
  defines "kept \<equiv> filter (\<lambda>k. k \<notin> set low) ks"
  shows "distinct kept" "length kept = K" "set kept = set ks - set low" "set low \<subseteq> set ks"
    "\<forall>r\<in>set low. \<forall>k\<in>set kept. r < k" "0 < K \<Longrightarrow> low \<noteq> [] \<and> kept \<noteq> []" 
proof -
  let ?m = "length ks - K"
  let ?s = "sort ks"
  have s: "sorted_wrt (<) ?s" using d by (simp add: strict_sorted_iff)
  have split: "?s = low @ drop ?m ?s" by (simp add: low_def)
  have ds: "distinct ?s" using d by simp
  show dk: "distinct kept" using d by (simp add: kept_def)
  show sk: "set kept = set ks - set low" by (auto simp: kept_def)
  have sub: "set low \<subseteq> set ?s" unfolding low_def by (rule set_take_subset)
  then show lowsub: "set low \<subseteq> set ks" by simp
  have "distinct low" unfolding low_def using ds by (rule distinct_take)
  then have cl: "card (set low) = ?m" by (simp add: distinct_card low_def)
  have "card (set kept) = card (set ks) - card (set low)"
    unfolding sk using lowsub by (intro card_Diff_subset) auto
  then show lk: "length kept = K"
    using dk d cl K by (simp add: distinct_card)
  have dropset: "set (drop ?m ?s) = set ks - set low"
  proof -
    have "set low \<inter> set (drop ?m ?s) = {}"
      unfolding low_def using ds by (intro set_take_disj_set_drop_if_distinct) auto
    moreover have "set low \<union> set (drop ?m ?s) = set ks"
      using split by (metis set_append set_sort)
    ultimately show ?thesis by auto
  qed
  have "\<forall>r\<in>set low. \<forall>k\<in>set (drop ?m ?s). r < k"
    using s split by (metis sorted_wrt_append)
  then show "\<forall>r\<in>set low. \<forall>k\<in>set kept. r < k"
    by (simp add: dropset sk)
  show "low \<noteq> [] \<and> kept \<noteq> []" if "0 < K"
  proof -
    have "length low = length ks - K" by (simp add: low_def)
    with K have "low \<noteq> []" by auto
    moreover from lk that have "kept \<noteq> []" by auto
    ultimately show ?thesis by simp
  qed
qed

lemma retains_step:
  fixes e :: nat
  assumes inv: "retains K S ks0" and fin: "finite S" and K: "0 < K"
  defines "ks \<equiv> (if e \<in> set ks0 then ks0 else ks0 @ [e])"
  defines "ks' \<equiv> (if K < length ks then filter (\<lambda>k. k \<notin> set (but_last K (sort ks))) ks else ks)"
  shows "retains K (insert e S) ks'"
proof -
  from inv have d0: "distinct ks0" and sub0: "set ks0 \<subseteq> S"
    and len0: "length ks0 = min (card S) K"
    and top0: "\<forall>d\<in>set ks0. \<forall>s\<in>S - set ks0. s < d"
    by (simp_all add: retains_def)
  show ?thesis
  proof (cases "e \<in> set ks0")
    case True
    then have "ks' = ks0" using len0 by (simp add: ks'_def ks_def)
    moreover have "insert e S = S" using True sub0 by auto
    ultimately show ?thesis using inv by simp
  next
    case False
    then have ks: "ks = ks0 @ [e]" by (simp add: ks_def)
    have dks: "distinct ks" using d0 False by (simp add: ks)
    show ?thesis
    proof (cases "K < length ks")
      case small: False
      then have "card S < K" using len0 by (simp add: ks min_def split: if_splits)
      then have "length ks0 = card S" using len0 by simp
      then have "card (set ks0) = card S" using d0 by (simp add: distinct_card)
      then have eq: "set ks0 = S" using sub0 fin by (simp add: card_subset_eq)
      then have "e \<notin> S" using False by simp
      then have "card (insert e S) = Suc (card S)" using fin by simp
      with small dks eq \<open>length ks0 = card S\<close> \<open>card S < K\<close> show ?thesis
        by (simp add: retains_def ks'_def ks)
    next
      case big: True
      then have lenS: "K \<le> card S" and lks: "length ks = Suc K"
        using len0 by (simp_all add: ks min_def split: if_splits)
      define low where "low = take (length ks - K) (sort ks)"
      have bl: "but_last K (sort ks) = low" using K by (simp add: but_last_def low_def)
      have ks': "ks' = filter (\<lambda>k. k \<notin> set low) ks" using big by (simp add: ks'_def bl)
      note p = prune_lowest [OF dks big, folded low_def, folded ks']
      have c: "K \<le> card (insert e S)"
        using lenS fin by (metis card_insert_le le_trans)
      have "set ks' \<subseteq> insert e S" using p(3) sub0 by (auto simp: ks)
      moreover have "length ks' = min (card (insert e S)) K" using p(2) c by simp
      moreover have "\<forall>d\<in>set ks'. \<forall>s\<in>insert e S - set ks'. s < d"
      proof (intro ballI)
        fix d s assume dk: "d \<in> set ks'" and s: "s \<in> insert e S - set ks'"
        show "s < d"
        proof (cases "s \<in> set low")
          case True
          with p(5) dk show ?thesis by blast
        next
          case notlow: False
          with s p(3) have sn: "s \<notin> set ks" by auto
          with s have s0: "s \<in> S - set ks0" by (auto simp: ks)
          show ?thesis
          proof (cases "d \<in> set ks0")
            case True
            with top0 s0 show ?thesis by blast
          next
            case False
            with dk p(3) have de: "d = e" by (auto simp: ks)
            from p(6) [OF K] obtain r where r: "r \<in> set low" by (cases low) auto
            with p(5) dk have rd: "r < d" by blast
            from r p(4) have "r \<in> set ks" by blast
            with rd de have "r \<in> set ks0" by (auto simp: ks)
            with top0 s0 have "s < r" by blast
            with rd show ?thesis by simp
          qed
        qed
      qed
      ultimately show ?thesis using p(1) by (simp add: retains_def)
    qed
  qed
qed

lemma store_all_retains:
  assumes "retains (keep_n_checkpoints cfg) S (map fst dir)" "finite S" "0 < keep_n_checkpoints cfg"
  shows "retains (keep_n_checkpoints cfg) (S \<union> epoch ` set ts) (map fst (store_all cfg ts dir))"
  using assms(1,2)
proof (induction ts arbitrary: S dir)
  case Nil
  then show ?case by (simp add: store_all_def)
next
  case (Cons t ts)
  let ?dir = "checkpoints (store_checkpoint cfg (t\<lparr>checkpoints := dir\<rparr>))"
  from Cons.prems(1) have d: "distinct (map fst (checkpoints (t\<lparr>checkpoints := dir\<rparr>)))"
    by (simp add: retains_def)
  define ks where "ks = (if epoch t \<in> set (map fst dir) then map fst dir else map fst dir @ [epoch t])"
  have k1: "map fst (AList.update (epoch (t\<lparr>checkpoints := dir\<rparr>))
      (get_state_dict (t\<lparr>checkpoints := dir\<rparr>)) (checkpoints (t\<lparr>checkpoints := dir\<rparr>))) = ks"
    by (simp add: update_keys ks_def)
  have k2: "map fst ?dir = (if keep_n_checkpoints cfg < length ks
      then filter (\<lambda>k. k \<notin> set (but_last (keep_n_checkpoints cfg) (sort ks))) ks else ks)"
    using store_checkpoint_keys [OF d, of cfg] unfolding k1 .
  have "retains (keep_n_checkpoints cfg) (insert (epoch t) S) (map fst ?dir)"
    unfolding k2 ks_def
    by (rule retains_step [OF Cons.prems(1) Cons.prems(2) assms(3)])
  moreover have "finite (insert (epoch t) S)" using Cons.prems(2) by simp
  ultimately have "retains (keep_n_checkpoints cfg) (insert (epoch t) S \<union> epoch ` set ts)
      (map fst (store_all cfg ts ?dir))"
    by (rule Cons.IH)
  then show ?case by (simp add: store_all_def)
qed

subsection \<open>Traces\<close>

lemma extends_refl [simp]: "extends P t t"
  by (simp add: extends_def)

lemma extends_trans: "extends P t t1 \<Longrightarrow> extends P t1 t2 \<Longrightarrow> extends P t t2"
  by (auto simp: extends_def)

lemma extends_mono: "extends P t t' \<Longrightarrow> (\<And>a. P a \<Longrightarrow> Q a) \<Longrightarrow> extends Q t t'"
  by (auto simp: extends_def list_all_iff)

lemma extends_upd [simp]:
  "extends P t (t'\<lparr>epoch := e\<rparr>) = extends P t t'"
  "extends P t (t'\<lparr>step := n\<rparr>) = extends P t t'"
  "extends P t (t'\<lparr>model := m\<rparr>) = extends P t t'"
  "extends P t (t'\<lparr>optimizer := opt\<rparr>) = extends P t t'"
  "extends P t (t'\<lparr>best_loss := bl\<rparr>) = extends P t t'"
  "extends P t (t'\<lparr>best_losses := bls\<rparr>) = extends P t t'"
  "extends P t (t'\<lparr>epoch_losses := el\<rparr>) = extends P t t'"
  "extends P t (t'\<lparr>stop := fl\<rparr>) = extends P t t'"
  "extends P t (t'\<lparr>checkpoints := d\<rparr>) = extends P t t'"
  "extends P t (t'\<lparr>best_model_file := f\<rparr>) = extends P t t'"
  "extends P t (t'\<lparr>best_model_slots := sl\<rparr>) = extends P t t'"
  "extends P (t\<lparr>epoch := e\<rparr>) t' = extends P t t'"
  "extends P (t\<lparr>stop := fl\<rparr>) t' = extends P t t'"
  "extends P (t\<lparr>model := m\<rparr>) t' = extends P t t'"
  by (simp_all add: extends_def)

lemma extends_snoc: "P a \<Longrightarrow> extends P t t' \<Longrightarrow> extends P t (t'\<lparr>trace := trace t' @ [a]\<rparr>)"
  by (auto simp: extends_def)

lemma list_all_hook_calls: "list_all P (hook_calls cb a k) \<longleftrightarrow> (\<forall>i\<in>{a..<a + k}. P (HookCall i cb))"
  by (simp add: hook_calls_def list_all_iff)

lemma run_hooks_extends:
  assumes "\<And>i. P (HookCall i cb)"
  shows "run_hooks cb t = Inr t' \<Longrightarrow> extends P t t'"
    and "run_hooks cb t = Inl (e, t') \<Longrightarrow> extends P t t'"
  using assms
  by (auto simp: extends_def list_all_hook_calls dest!: run_hooks_Inr run_hooks_Inl)

lemma fold_remove_keeps:
  "epoch (fold (\<lambda>i. remove_checkpoint (f i)) is t) = epoch t"
  "step (fold (\<lambda>i. remove_checkpoint (f i)) is t) = step t"
  "best_loss (fold (\<lambda>i. remove_checkpoint (f i)) is t) = best_loss t"
  "best_losses (fold (\<lambda>i. remove_checkpoint (f i)) is t) = best_losses t"
  "epoch_losses (fold (\<lambda>i. remove_checkpoint (f i)) is t) = epoch_losses t"
  "stop (fold (\<lambda>i. remove_checkpoint (f i)) is t) = stop t"
  "model (fold (\<lambda>i. remove_checkpoint (f i)) is t) = model t"
  "optimizer (fold (\<lambda>i. remove_checkpoint (f i)) is t) = optimizer t"
  "hooks (fold (\<lambda>i. remove_checkpoint (f i)) is t) = hooks t"
  "best_model_file (fold (\<lambda>i. remove_checkpoint (f i)) is t) = best_model_file t"
  "best_model_slots (fold (\<lambda>i. remove_checkpoint (f i)) is t) = best_model_slots t"
  by (induction "is" arbitrary: t) (simp_all add: remove_checkpoint_def)

lemma store_checkpoint_keeps [simp]:
  "epoch (store_checkpoint cfg t) = epoch t"
  "step (store_checkpoint cfg t) = step t"
  "best_loss (store_checkpoint cfg t) = best_loss t"
  "best_losses (store_checkpoint cfg t) = best_losses t"
  "epoch_losses (store_checkpoint cfg t) = epoch_losses t"
  "stop (store_checkpoint cfg t) = stop t"
  "model (store_checkpoint cfg t) = model t"
  "optimizer (store_checkpoint cfg t) = optimizer t"
  "hooks (store_checkpoint cfg t) = hooks t"
  "best_model_file (store_checkpoint cfg t) = best_model_file t"
  "best_model_slots (store_checkpoint cfg t) = best_model_slots t"
  by (simp_all add: store_checkpoint_def Let_def fold_remove_keeps)

lemma store_checkpoint_extends:
  assumes "P (WriteCheckpoint (epoch t))" "\<And>e. P (RemoveCheckpoint e)"
  shows "extends P t (store_checkpoint cfg t)"
proof -
  from store_checkpoint_trace [of cfg t] obtain rs where
    "trace (store_checkpoint cfg t) = trace t @ WriteCheckpoint (epoch t) # map RemoveCheckpoint rs"
    by blast
  then show ?thesis using assms by (simp add: extends_def list_all_iff)
qed

lemma post_Inr [simp]: "post Q p (Inr a) = Q (p a)"
  by (simp add: post_def)

lemma post_Inl [simp]: "post Q p (Inl (e, s)) = Q s"
  by (simp add: post_def)

lemma post_andthen:
  "post Q p1 r \<Longrightarrow> (\<And>a. r = Inr a \<Longrightarrow> Q (p1 a) \<Longrightarrow> post Q p (g a)) \<Longrightarrow> post Q p (andthen r g)"
  by (cases r) (auto simp: post_def)

lemma postD:
  "post Q p r \<Longrightarrow> r = Inr a \<Longrightarrow> Q (p a)"
  "post Q p r \<Longrightarrow> r = Inl (e, s) \<Longrightarrow> Q s"
  by (simp_all add: post_def)

lemma post_mono: "post Q p r \<Longrightarrow> (\<And>s. Q s \<Longrightarrow> Q' s) \<Longrightarrow> post Q' p r"
  by (auto simp: post_def split: sum.splits)

lemma extends_app:
  "extends P t0 t \<Longrightarrow> list_all P new \<Longrightarrow> extends P t0 (t\<lparr>trace := trace t @ new\<rparr>)"
  by (auto simp: extends_def)

lemma extends_trace:
  "extends P t0 t1 \<Longrightarrow>
   extends P t0 (t\<lparr>trace := trace t1 @ new\<rparr>) \<longleftrightarrow>
     list_all P new \<and> map react (hooks t) = map react (hooks t1)"
  by (auto simp: extends_def)

lemma extends_hooks:
  "extends P t0 t \<Longrightarrow> map react hs = map react (hooks t) \<Longrightarrow> extends P t0 (t\<lparr>hooks := hs\<rparr>)"
  by (auto simp: extends_def)

lemma run_hooks_post:
  assumes "extends P t0 t" "\<And>i. P (HookCall i cb)"
  shows "post (extends P t0) (\<lambda>t. t) (run_hooks cb t)"
proof (cases "run_hooks cb t")
  case (Inl x)
  obtain e t' where "x = (e, t')" by (cases x)
  with Inl run_hooks_extends(2) [of P cb t e t'] assms show ?thesis
    by (auto intro: extends_trans)
next
  case (Inr t')
  with run_hooks_extends(1) [of P cb t t'] assms show ?thesis
    by (auto intro: extends_trans)
qed

lemma hooks_then:
  assumes "extends P t0 t" "\<And>i. P (HookCall i cb)"
    and "\<And>t1. run_hooks cb t = Inr t1 \<Longrightarrow> extends P t0 t1 \<Longrightarrow> post (extends P t0) p (g t1)"
  shows "post (extends P t0) p (andthen (run_hooks cb t) g)"
  by (rule post_andthen [OF run_hooks_post [OF assms(1,2)]]) (rule assms(3))

lemma raised_then:
  assumes "extends P t0 t" "\<And>a. r = Inr a \<Longrightarrow> post (extends P t0) p (g a)"
  shows "post (extends P t0) p (andthen (raised_in t r) g)"
  using assms by (cases r) simp_all

lemma andthen_assoc: "andthen (andthen r f) g = andthen r (\<lambda>a. andthen (f a) g)"
  by (cases r) simp_all

lemma train_batch_step_post:
  assumes "extends loop_action t0 t"
  shows "post (extends loop_action t0) (\<lambda>(fl, vars, t'). t') (train_batch_step env cfg b vars t)"
  using assms unfolding train_batch_step_def Let_def
  by (auto simp: extends_trace split: prod.splits intro!: hooks_then raised_then)

lemma val_batch_step_post:
  assumes "extends loop_action t0 t"
  shows "post (extends loop_action t0) (\<lambda>(vars, t'). t') (val_batch_step env cfg b vars t)"
  using assms unfolding val_batch_step_def ensemble_pred_def Let_def
  by (auto simp: extends_trace andthen_assoc split: prod.splits option.splits
      intro!: hooks_then raised_then)

lemma batch_loop_post:
  assumes "extends loop_action t0 t"
  shows "post (extends loop_action t0) (\<lambda>t'. t') (batch_loop env cfg bs vars t)"
  using assms
proof (induction bs arbitrary: vars t)
  case Nil
  then show ?case by simp
next
  case (Cons b bs)
  show ?case
    unfolding batch_loop.simps
    by (rule post_andthen [OF train_batch_step_post [OF Cons.prems]])
      (auto split: flow.splits intro: Cons.IH)
qed

lemma val_loop_post:
  assumes "extends loop_action t0 t"
  shows "post (extends loop_action t0) (\<lambda>(vars, t'). t') (val_loop env cfg bs vars t)"
  using assms
proof (induction bs arbitrary: vars t)
  case Nil
  then show ?case by simp
next
  case (Cons b bs)
  show ?case
    unfolding val_loop.simps
    by (rule post_andthen [OF val_batch_step_post [OF Cons.prems]])
      (auto intro: Cons.IH)
qed

lemma select_best_post:
  assumes "extends P t0 t"
  shows "post (extends P t0) (\<lambda>t'. t') (select_best cfg v t)"
  using assms by (auto simp: select_best_def Let_def split: option.splits)

lemma validation_post:
  assumes "extends loop_action t0 t"
  shows "post (extends loop_action t0) (\<lambda>t'. t') (validation env cfg t)"
  using assms unfolding validation_def
  by (auto split: prod.splits option.splits
      intro!: hooks_then post_andthen [OF val_loop_post] post_andthen [OF select_best_post])

lemma every_post:
  assumes "extends P t0 t" "\<And>t. extends P t0 t \<Longrightarrow> post (extends P t0) (\<lambda>t'. t') (f t)"
  shows "post (extends P t0) (\<lambda>t'. t') (every k c f t)"
  using assms by (simp add: every_def)

lemma train_epoch_post:
  assumes "extends loop_action t0 t"
  shows "post (extends loop_action t0) snd (train_epoch env cfg t)"
  using assms unfolding train_epoch_def Let_def
  by (auto simp: extends_trace
      intro!: hooks_then post_andthen [OF batch_loop_post] post_andthen [OF every_post]
        validation_post store_checkpoint_extends [THEN [2] extends_trans])

lemma epoch_loop_post:
  assumes "extends loop_action t0 t"
  shows "post (extends loop_action t0) (\<lambda>t'. t') (epoch_loop env cfg n t)"
  using assms
proof (induction n arbitrary: t)
  case 0
  then show ?case by simp
next
  case (Suc n)
  show ?case
    unfolding epoch_loop.simps
    by (rule post_andthen [OF train_epoch_post [OF Suc.prems]])
      (auto split: flow.splits intro: Suc.IH)
qed

lemmas sample_defs = sample_trainer_def sample_cfg_def sample_env_def counting_hook_def
  stopping_hook_def failing_hook_def broken_env_def stopper_def

lemmas run_defs = train_def train_body_def train_epoch_def train_batch_step_def
  val_batch_step_def validation_def select_best_def every_def run_hooks_def view_def
  store_checkpoint_def get_state_dict_def Let_def

lemma train_body_post:
  assumes "extends P t0 t" "\<And>a. loop_action a \<Longrightarrow> P a" "\<And>i. P (HookCall i OnTrainEnds)"
    "\<And>e. P (WriteCheckpoint e)" "\<And>e. P (RemoveCheckpoint e)"
  shows "post (extends P t0) (\<lambda>t'. t') (train_body env cfg n t)"
proof -
  have "post (extends loop_action t) (\<lambda>t'. t') (epoch_loop env cfg n t)"
    by (rule epoch_loop_post) simp
  then have "post (extends P t) (\<lambda>t'. t') (epoch_loop env cfg n t)"
    by (rule post_mono) (erule extends_mono, rule assms(2))
  then have l: "post (extends P t0) (\<lambda>t'. t') (epoch_loop env cfg n t)"
    by (rule post_mono) (rule extends_trans [OF assms(1)])
  show ?thesis
    unfolding train_body_def
    by (rule post_andthen [OF l])
      (auto intro!: hooks_then assms(3) store_checkpoint_extends [THEN [2] extends_trans] assms(4,5))
qed

subsection \<open>The batch loop\<close>


lemma map_erase_hook_calls [simp]:
  "map erase (hook_calls (OnBatchBegin b) a k) = hook_calls (OnBatchBegin b) a k"
  "map erase (hook_calls (OnBatchEnd b y l) a k) = hook_calls (OnBatchEnd b 0 0) a k"
  by (simp_all add: hook_calls_def)















subsection \<open>Runs that start in the same state\<close>

lemma same_outcome_simps [simp]:
  "same_outcome R (Inr a1) (Inr a2) = R a1 a2"
  "same_outcome R (Inl (e1, t1)) (Inl (e2, t2)) = (e1 = e2 \<and> same_run t1 t2)"
  "same_outcome R (Inl x) (Inr a2) = False"
  "same_outcome R (Inr a1) (Inl y) = False"
  by (auto simp: same_outcome_def split: prod.splits)







lemma same_run_upd [simp]:
  "same_run (t1\<lparr>trace := x\<rparr>) t2 = same_run t1 t2"
  "same_run t1 (t2\<lparr>trace := y\<rparr>) = same_run t1 t2"
  "same_run (t1\<lparr>epoch_losses := u\<rparr>) t2 = same_run t1 t2"
  "same_run t1 (t2\<lparr>epoch_losses := v\<rparr>) = same_run t1 t2"
  "same_run (t1\<lparr>best_model_file := f\<rparr>) t2 = same_run t1 t2"
  "same_run t1 (t2\<lparr>best_model_file := g\<rparr>) = same_run t1 t2"
  "same_run (t1\<lparr>best_model_slots := f'\<rparr>) t2 = same_run t1 t2"
  "same_run t1 (t2\<lparr>best_model_slots := g'\<rparr>) = same_run t1 t2"
  by (simp_all add: same_run_def)




















subsection \<open>File names and epochs\<close>

declare str_nat.simps [simp del]

lemma digit_char_code: "d < 10 \<Longrightarrow> (of_char (digit_char d) :: nat) = 48 + d"
  by (simp add: digit_char_def)

lemma digit_char_plain:
  assumes "d < 10"
  shows "is_digit (digit_char d)" "digit_char d \<noteq> CHR ''.''" "digit_char d \<noteq> CHR ''-''"
proof -
  show "is_digit (digit_char d)" using assms by (simp add: is_digit_def digit_char_code)
  have "(of_char (digit_char d) :: nat) \<noteq> of_char CHR ''.''"
    using assms by (simp add: digit_char_code)
  then show "digit_char d \<noteq> CHR ''.''" by auto
  have "(of_char (digit_char d) :: nat) \<noteq> of_char CHR ''-''"
    using assms by (simp add: digit_char_code)
  then show "digit_char d \<noteq> CHR ''-''" by auto
qed

lemma str_nat_digits:
  "str_nat n \<noteq> [] \<and> list_all is_digit (str_nat n) \<and>
   CHR ''.'' \<notin> set (str_nat n) \<and> CHR ''-'' \<notin> set (str_nat n)"
proof (induction n rule: str_nat.induct)
  case (1 n)
  show ?case
  proof (cases "n < 10")
    case True
    then show ?thesis
      using digit_char_plain [of n] by (subst (1 2 3 4) str_nat.simps) auto
  next
    case False
    have "n mod 10 < 10" by simp
    from digit_char_plain [OF this] 1 [OF False] False show ?thesis
      by (subst (1 2 3 4) str_nat.simps) auto
  qed
qed

lemma fold_digits_str_nat:
  "fold (\<lambda>c n. 10 * n + (of_char c - 48)) (str_nat n) 0 = n"
proof (induction n rule: str_nat.induct)
  case (1 n)
  show ?case
  proof (cases "n < 10")
    case True
    then show ?thesis
      by (subst str_nat.simps) (simp add: digit_char_code)
  next
    case False
    have "n mod 10 < 10" by simp
    from digit_char_code [OF this] 1 [OF False] False show ?thesis
      by (subst str_nat.simps) simp
  qed
qed

lemma int_of_digits_str_nat: "int_of_digits (str_nat n) = Inr n"
  using str_nat_digits [of n] by (simp add: int_of_digits_def fold_digits_str_nat)

lemma epoch_of_checkpoint_name: "epoch_of_name (checkpoint_name e) = Inr e"
proof -
  from str_nat_digits [of e] have
    dot: "CHR ''.'' \<notin> set (str_nat e)" and dash: "CHR ''-'' \<notin> set (str_nat e)" by simp_all
  have "first_field CHR ''.'' (checkpoint_name e) = ''checkpoint-'' @ str_nat e"
    using dot by (simp add: first_field_def checkpoint_name_def takeWhile_append2 takeWhile_tail
        takeWhile_append)
  moreover have "last_field CHR ''-'' (''checkpoint-'' @ str_nat e) = str_nat e"
    using dash by (simp add: last_field_def takeWhile_append)
  ultimately show ?thesis by (simp add: epoch_of_name_def int_of_digits_str_nat)
qed

lemma checkpoint_name_filters:
  "ends_with ''.pth.tar'' (checkpoint_name e)" "starts_with ''checkpoint'' (checkpoint_name e)"
  by (simp_all add: ends_with_def starts_with_def checkpoint_name_def)

lemma checkpoint_name_inj: "checkpoint_name e = checkpoint_name e' \<longleftrightarrow> e = e'"
  by (metis epoch_of_checkpoint_name sum.inject(2))

section \<open>The claims\<close>

subsection \<open>C1: restoring a stored checkpoint\<close>

text \<open>
  C1 says that \<^verbatim>\<open>restore_checkpoint\<close> after \<^verbatim>\<open>store_checkpoint\<close> gives back every field
  of the stored state, the state of each hook included. The setter assigns to each hook
  the state the hook has at that moment, so the stored hook states are never read. Here
  a trainer whose hook is in state 5 stores a checkpoint, and a new trainer with a new
  hook (state 0) is constructed over the directory: the checkpoint holds 5, the epoch
  comes back as 3, the hook stays at 0.
\<close>

theorem restore_keeps_hook_state:
  "error_of (init_trainer sample_cfg 0 0 [counting_hook 0]
      (Some (checkpoints (store_checkpoint sample_cfg stored_run)))) = None \<and>
   map hstate (hooks (final (init_trainer sample_cfg 0 0 [counting_hook 0]
      (Some (checkpoints (store_checkpoint sample_cfg stored_run)))))) = [0] \<and>
   map sd_hooks (map snd (checkpoints (store_checkpoint sample_cfg stored_run))) = [[5]] \<and>
   epoch (final (init_trainer sample_cfg 0 0 [counting_hook 0]
      (Some (checkpoints (store_checkpoint sample_cfg stored_run))))) = 3"
  by (simp add: init_trainer_def restore_checkpoint_def store_checkpoint_def stored_run_def
      sample_trainer_def sample_cfg_def get_state_dict_def set_state_dict_def counting_hook_def
      error_of_def final_def Let_def)

subsection \<open>C2: resuming a run\<close>




subsection \<open>C3: which checkpoints are kept\<close>

text \<open>
  C3, as the code has it: for every series of calls of \<^verbatim>\<open>store_checkpoint\<close> with
  \<^verbatim>\<open>keep_n_checkpoints = K\<close>, \<open>K \<ge> 1\<close>, that starts on an empty directory, the files in
  the directory after each call are those of the \<open>K\<close> highest of the distinct epoch
  numbers stored so far, all of them if these are fewer than \<open>K\<close>; and each call writes
  its file before it removes any.
\<close>

theorem checkpoint_retention:
  assumes "0 < keep_n_checkpoints cfg"
  shows "retains (keep_n_checkpoints cfg) (epoch ` set ts) (map fst (store_all cfg ts [])) \<and>
    (\<exists>rs. trace (store_checkpoint cfg t) =
       trace t @ WriteCheckpoint (epoch t) # map RemoveCheckpoint rs)"
proof -
  have "retains (keep_n_checkpoints cfg) {} (map fst [])"
    by (simp add: retains_def)
  from store_all_retains [OF this _ assms, of ts] store_checkpoint_trace [of cfg t]
  show ?thesis by simp
qed

theorem checkpoint_retention_witness:
  "0 < keep_n_checkpoints sample_cfg \<and>
   map fst (store_all sample_cfg five_stores []) = [2, 3, 4] \<and>
   retains 3 {0, 1, 2, 3, 4} [2, 3, 4] \<and>
   trace (store_checkpoint sample_cfg (sample_trainer\<lparr>epoch := 4,
       checkpoints := store_all sample_cfg (butlast five_stores) []\<rparr>)) =
     [WriteCheckpoint 4, RemoveCheckpoint 1]"
proof -
  have k: "0 < keep_n_checkpoints sample_cfg" by (simp add: sample_cfg_def)
  have s: "map fst (store_all sample_cfg five_stores []) = [2, 3, 4]"
    by (simp add: store_all_def five_stores_def store_checkpoint_def sample_cfg_def
        sample_trainer_def get_state_dict_def remove_checkpoint_def argsort_def but_last_def
        Let_def)
  have tr: "trace (store_checkpoint sample_cfg (sample_trainer\<lparr>epoch := 4,
       checkpoints := store_all sample_cfg (butlast five_stores) []\<rparr>)) =
     [WriteCheckpoint 4, RemoveCheckpoint 1]"
    by (simp add: store_all_def five_stores_def store_checkpoint_def sample_cfg_def
        sample_trainer_def get_state_dict_def remove_checkpoint_def argsort_def but_last_def
        Let_def)
  have e: "epoch ` set five_stores = {0, 1, 2, 3, 4}"
    by (auto simp: five_stores_def)
  from checkpoint_retention [OF k, of five_stores sample_trainer]
  have "retains (keep_n_checkpoints sample_cfg) (epoch ` set five_stores)
      (map fst (store_all sample_cfg five_stores []))" by (rule conjunct1)
  then have "retains 3 {0, 1, 2, 3, 4} [2, 3, 4]"
    unfolding s e by (simp add: sample_cfg_def)
  with k s tr show ?thesis by (intro conjI)
qed

text \<open>
  C3 as it is stated counts the calls. Two calls in the same epoch (the constructor of a
  new run and \<^verbatim>\<open>train\<close> with no epoch to run, both in epoch 0) write the same file: one
  file after two stores, with \<open>K = 3\<close>.
\<close>

theorem checkpoint_count_counterexample:
  "length (store_all sample_cfg [sample_trainer, sample_trainer] []) \<noteq>
     min (length [sample_trainer, sample_trainer]) (keep_n_checkpoints sample_cfg)"
  by (simp add: store_all_def store_checkpoint_def sample_cfg_def sample_trainer_def
      get_state_dict_def Let_def)

subsection \<open>C4: gradient accumulation\<close>






subsection \<open>C5: the smoothed prediction\<close>

text \<open>
  C5, as the code has it: in ensemble mode the prediction reported for the validation
  batch at position \<open>b\<close> is the raw prediction in epoch 1; in any other epoch it is the
  mean of the raw prediction and the predictions recorded at position \<open>b\<close> in the most
  recent \<open>min (remember - 1) n\<close> of the \<open>n\<close> recorded validation passes, provided each of
  these has a batch at position \<open>b\<close>. With \<open>remember = 2\<close>, one recorded prediction \<open>a\<close>
  and the raw prediction \<open>c\<close>, the reported prediction is \<open>(a + c) / 2\<close>.
\<close>

theorem ensemble_pred_formula:
  "(epoch t = 1 \<longrightarrow> ensemble_pred cfg p b t = Inr p) \<and>
   (epoch t \<noteq> 1 \<and> epoch_losses t = Some h \<and>
    (\<forall>row\<in>set (take (min (remember cfg - 1) (length h)) (rev h)). b < length row) \<longrightarrow>
      ensemble_pred cfg p b t =
        Inr (mean (p # map (\<lambda>row. row ! b) (take (min (remember cfg - 1) (length h)) (rev h))))) \<and>
   calc_pred c [[a]] 0 2 = Inr ((a + c) / 2)"
proof (intro conjI impI)
  show "calc_pred c [[a]] 0 2 = Inr ((a + c) / 2)"
    by (simp add: calc_pred_def mean_def item_def add.commute)
qed (simp_all add: ensemble_pred_def calc_pred_formula)

theorem ensemble_pred_formula_witness:
  "epoch third_epoch \<noteq> 1 \<and> epoch_losses third_epoch = Some [[1], [2]] \<and>
   ensemble_pred (ensemble_cfg\<lparr>remember := 3\<rparr>) 6 0 third_epoch = Inr 3 \<and>
   ensemble_pred ensemble_cfg 6 0 third_epoch = Inr 4 \<and>
   ensemble_pred ensemble_cfg 6 0 (third_epoch\<lparr>epoch := 1\<rparr>) = Inr 6"
  using ensemble_pred_formula [of third_epoch "ensemble_cfg\<lparr>remember := 3\<rparr>" 6 0 "[[1], [2]]" 0 0]
    ensemble_pred_formula [of third_epoch ensemble_cfg 6 0 "[[1], [2]]" 0 0]
    ensemble_pred_formula [of "third_epoch\<lparr>epoch := 1\<rparr>" ensemble_cfg 6 0 "[]" 0 0]
  by (simp add: third_epoch_def sample_trainer_def ensemble_cfg_def sample_cfg_def mean_def)

text \<open>
  C5 as it is stated takes the \<open>min remember n\<close> most recent passes. With
  \<open>remember = 2\<close>, two recorded passes \<open>1\<close> and \<open>2\<close> and the raw prediction \<open>6\<close>, that mean
  is \<open>3\<close>; the code reports \<open>4\<close>, the mean of \<open>6\<close> and \<open>2\<close>.
\<close>

theorem ensemble_pred_counterexample:
  "ensemble_pred ensemble_cfg 6 0 third_epoch \<noteq>
     Inr (mean (6 # map (\<lambda>row. row ! 0)
       (take (min (remember ensemble_cfg) (length [[1], [2 :: real]])) (rev [[1], [2]]))))"
  by (simp add: ensemble_pred_def calc_pred_def item_def third_epoch_def sample_trainer_def
      ensemble_cfg_def sample_cfg_def mean_def)

subsection \<open>C6: the history of raw predictions\<close>

text \<open>
  C6, as the code has it: in ensemble mode a validation pass that completes appends the
  list of the raw predictions of its batches, in batch order, to \<^verbatim>\<open>epoch_losses\<close>, and
  removes nothing: the history after the pass is the history before it with one more
  entry, whatever \<^verbatim>\<open>remember\<close> is.
\<close>

theorem validation_appends_raw:
  assumes "validation env cfg t = Inr t'" and "ensembleModel cfg"
  shows "\<exists>h raw. epoch_losses t = Some h \<and> epoch_losses t' = Some (h @ [raw]) \<and>
           map (forward env (model t)) (validation_loader cfg) = map Inr raw"
proof -
  from assms obtain t1 vl nv bn bl t2 v t3 t4 h where
    h1: "run_hooks OnValidationBegin t = Inr t1" and
    l: "val_loop env cfg (validation_loader cfg) (0, 0, 0, []) t1 = Inr ((vl, nv, bn, bl), t2)" and
    sb: "select_best cfg v t2 = Inr t3" and
    h2: "run_hooks (OnValidationEnd v) t3 = Inr t4" and
    el: "epoch_losses t4 = Some h" and t': "t' = t4\<lparr>epoch_losses := Some (h @ [bl])\<rparr>"
    by (auto simp: validation_def andthen_eq_Inr split: prod.splits option.splits if_splits)
  from val_loop_ensemble [OF l assms(2)] obtain raw where
    raw: "bl = raw" "map (forward env (model t1)) (validation_loader cfg) = map Inr raw"
      "epoch_losses t2 = epoch_losses t1" by auto
  from run_hooks_keeps [OF h1] run_hooks_keeps [OF h2] select_best_keeps [OF sb] raw el t'
  show ?thesis by (intro exI [of _ h] exI [of _ raw]) simp
qed

theorem validation_appends_raw_witness:
  "ensembleModel ensemble_cfg \<and>
   validation sample_env ensemble_cfg third_epoch =
     Inr (third_epoch\<lparr>epoch_losses := Some [[1], [2], [6]], trace := [ModelCall 0]\<rparr>) \<and>
   map (forward sample_env (model third_epoch)) (validation_loader ensemble_cfg) = map Inr [6]"
proof -
  have v: "validation sample_env ensemble_cfg third_epoch =
     Inr (third_epoch\<lparr>epoch_losses := Some [[1], [2], [6]], trace := [ModelCall 0]\<rparr>)"
    by (simp add: validation_def val_batch_step_def run_hooks_def ensemble_pred_def calc_pred_def
        item_def mean_def select_best_def third_epoch_def sample_trainer_def ensemble_cfg_def
        sample_cfg_def sample_env_def Let_def)
  have e: "ensembleModel ensemble_cfg"
    by (simp add: ensemble_cfg_def)
  from validation_appends_raw [OF v e] v e show ?thesis
    by (simp add: third_epoch_def sample_trainer_def ensemble_cfg_def sample_cfg_def sample_env_def)
qed

text \<open>
  C6 as it is stated has the oldest entry dropped once the history is longer than
  \<^verbatim>\<open>remember\<close>. With \<open>remember = 2\<close> and two recorded passes, the pass of the third epoch
  leaves three entries.
\<close>

theorem history_bound_counterexample:
  "\<not> (case epoch_losses (final (validation sample_env ensemble_cfg third_epoch)) of
        None \<Rightarrow> False
      | Some h \<Rightarrow> length h \<le> remember ensemble_cfg)"
  by (simp add: validation_def val_batch_step_def run_hooks_def ensemble_pred_def calc_pred_def
      item_def mean_def select_best_def third_epoch_def sample_trainer_def ensemble_cfg_def
      sample_cfg_def sample_env_def Let_def final_def)

subsection \<open>C7: the best models of the ensemble\<close>

text \<open>
  C7: in ensemble mode, below capacity the validation loss is appended to
  \<^verbatim>\<open>best_losses\<close> and the model saved in the slot of the new length minus one; at capacity
  (with at least one slot) the slot \<^verbatim>\<open>argmax\<close> finds, which holds a maximum, gets the new
  loss and the model if and only if the loss is strictly lower than the one it holds, and
  else nothing changes; no other slot changes its place, its loss or its file; and a
  validation pass that starts with at most \<^verbatim>\<open>remember\<close> losses ends with at most
  \<^verbatim>\<open>remember\<close> losses.
\<close>

theorem ensemble_top_k:
  assumes "ensembleModel cfg"
  shows "(length (best_losses t) < remember cfg \<longrightarrow>
            select_best cfg v t =
              Inr (t\<lparr>best_losses := best_losses t @ [v],
                     best_model_slots := (best_model_slots t)(length (best_losses t) \<mapsto> model t)\<rparr>)) \<and>
         (remember cfg \<le> length (best_losses t) \<and> best_losses t \<noteq> [] \<longrightarrow>
            (\<exists>i<length (best_losses t). argmax (best_losses t) = Some i \<and>
               (\<forall>j<length (best_losses t). best_losses t ! j \<le> best_losses t ! i) \<and>
               select_best cfg v t =
                 Inr (if v < best_losses t ! i
                      then t\<lparr>best_losses := (best_losses t)[i := v],
                             best_model_slots := (best_model_slots t)(i \<mapsto> model t)\<rparr>
                      else t))) \<and>
         (\<forall>t'. select_best cfg v t = Inr t' \<longrightarrow>
            (\<exists>i. \<forall>j<length (best_losses t). j \<noteq> i \<longrightarrow>
               best_losses t' ! j = best_losses t ! j \<and> best_model_slots t' j = best_model_slots t j)) \<and>
         (\<forall>t'. validation env cfg t = Inr t' \<and> length (best_losses t) \<le> remember cfg \<longrightarrow>
            length (best_losses t') \<le> remember cfg)"
proof (intro conjI impI allI)
  assume "length (best_losses t) < remember cfg"
  with assms show "select_best cfg v t =
      Inr (t\<lparr>best_losses := best_losses t @ [v],
             best_model_slots := (best_model_slots t)(length (best_losses t) \<mapsto> model t)\<rparr>)"
    by (simp add: select_best_def Let_def)
next
  assume a: "remember cfg \<le> length (best_losses t) \<and> best_losses t \<noteq> []"
  then obtain i where i: "argmax (best_losses t) = Some i" "i < length (best_losses t)"
    "\<forall>j<length (best_losses t). best_losses t ! j \<le> best_losses t ! i"
    using argmax_Some [of "best_losses t"] by blast
  with a assms show "\<exists>i<length (best_losses t). argmax (best_losses t) = Some i \<and>
               (\<forall>j<length (best_losses t). best_losses t ! j \<le> best_losses t ! i) \<and>
               select_best cfg v t =
                 Inr (if v < best_losses t ! i
                      then t\<lparr>best_losses := (best_losses t)[i := v],
                             best_model_slots := (best_model_slots t)(i \<mapsto> model t)\<rparr>
                      else t)"
    by (intro exI [of _ i]) (simp add: select_best_def)
next
  fix t' assume s: "select_best cfg v t = Inr t'"
  show "\<exists>i. \<forall>j<length (best_losses t). j \<noteq> i \<longrightarrow>
               best_losses t' ! j = best_losses t ! j \<and> best_model_slots t' j = best_model_slots t j"
  proof (cases "length (best_losses t) < remember cfg")
    case True
    with s assms show ?thesis
      by (intro exI [of _ "length (best_losses t)"]) (auto simp: select_best_def Let_def nth_append)
  next
    case False
    with s assms obtain i where "argmax (best_losses t) = Some i"
      by (auto simp: select_best_def split: option.splits)
    with s assms False show ?thesis
      by (intro exI [of _ i]) (auto simp: select_best_def split: if_splits)
  qed
next
  fix t' assume "validation env cfg t = Inr t' \<and> length (best_losses t) \<le> remember cfg"
  with assms show "length (best_losses t') \<le> remember cfg"
    using validation_best_losses_bound by blast
qed

theorem ensemble_top_k_witness:
  "ensembleModel ensemble_cfg \<and>
   length (best_losses sample_trainer) < remember ensemble_cfg \<and>
   select_best ensemble_cfg 2 sample_trainer =
     Inr (sample_trainer\<lparr>best_losses := [2], best_model_slots := (\<lambda>i. None)(0 \<mapsto> 0)\<rparr>) \<and>
   remember ensemble_cfg \<le> length (best_losses third_epoch) \<and>
   argmax (best_losses third_epoch) = Some 0 \<and>
   select_best ensemble_cfg 2 third_epoch =
     Inr (third_epoch\<lparr>best_losses := [2, 1], best_model_slots := (\<lambda>i. None)(0 \<mapsto> 6)\<rparr>) \<and>
   select_best ensemble_cfg 3 third_epoch = Inr third_epoch"
proof -
  have e: "ensembleModel ensemble_cfg"
    by (simp add: ensemble_cfg_def)
  show ?thesis
    using ensemble_top_k [OF e, of sample_trainer 2 sample_env]
      ensemble_top_k [OF e, of third_epoch 2 sample_env]
      ensemble_top_k [OF e, of third_epoch 3 sample_env]
    by (simp add: third_epoch_def sample_trainer_def ensemble_cfg_def sample_cfg_def)
qed

subsection \<open>C8: a failure during training\<close>

text \<open>
  C8, as the code has it: when the \<^verbatim>\<open>try\<close> block (the epoch loop, \<^verbatim>\<open>on_train_ends\<close> and
  the final store) raises an exception derived from \<^verbatim>\<open>Exception\<close>, \<^verbatim>\<open>on_train_failed\<close>
  is called on the hooks in registration order; if none of these calls raises, every
  hook has been called once and the original exception is raised to the caller; if one
  of them raises, its exception is raised instead and the hooks after it are not called;
  before the handler, no \<^verbatim>\<open>on_train_failed\<close> call is made.
\<close>

theorem train_failure_protocol:
  assumes "run_hooks OnTrainBegin (t\<lparr>stop := False\<rparr>) = Inr t1"
    and "train_body env cfg n t1 = Inl (e, t2)" and "is_Exception e"
  shows "(\<forall>t3. run_hooks OnTrainFailed t2 = Inr t3 \<longrightarrow>
            train env cfg n t = Inl (e, t3) \<and>
            trace t3 = trace t2 @ hook_calls OnTrainFailed 0 (length (hooks t))) \<and>
         (\<forall>e' t3. run_hooks OnTrainFailed t2 = Inl (e', t3) \<longrightarrow>
            train env cfg n t = Inl (e', t3) \<and>
            (\<exists>k<length (hooks t). trace t3 = trace t2 @ hook_calls OnTrainFailed 0 (Suc k))) \<and>
         (\<exists>new. trace t2 = trace t @ new \<and> (\<forall>i. HookCall i OnTrainFailed \<notin> set new))"
proof -
  let ?P = "\<lambda>a :: 'a action. \<forall>i. a \<noteq> HookCall i OnTrainFailed"
  have P: "?P a" if "loop_action a" for a :: "'a action"
    using that by auto
  have b: "extends ?P t t1"
    using run_hooks_extends(1) [OF _ assms(1), of ?P] by simp
  have "post (extends ?P t) (\<lambda>t'. t') (train_body env cfg n t1)"
    by (rule train_body_post [OF b]) (simp_all add: P)
  with assms(2) have x: "extends ?P t t2" by (auto dest: postD)
  then have len: "length (hooks t2) = length (hooks t)"
    by (auto simp: extends_def dest: map_eq_imp_length_eq)
  from x obtain new where n: "trace t2 = trace t @ new" "list_all ?P new"
    by (auto simp: extends_def)
  have tr: "train env cfg n t = andthen (run_hooks OnTrainFailed t2) (\<lambda>t3. Inl (e, t3))"
    using assms by (simp add: train_def)
  show ?thesis
  proof (intro conjI allI impI)
    fix t3 assume r: "run_hooks OnTrainFailed t2 = Inr t3"
    then show "train env cfg n t = Inl (e, t3)" by (simp add: tr)
    from run_hooks_keeps(12) [OF r] len
    show "trace t3 = trace t2 @ hook_calls OnTrainFailed 0 (length (hooks t))" by simp
  next
    fix e' t3 assume r: "run_hooks OnTrainFailed t2 = Inl (e', t3)"
    then show "train env cfg n t = Inl (e', t3)" by (simp add: tr)
    from run_hooks_Inl [OF r] len
    show "\<exists>k<length (hooks t). trace t3 = trace t2 @ hook_calls OnTrainFailed 0 (Suc k)"
      by auto
  next
    from n show "\<exists>new. trace t2 = trace t @ new \<and> (\<forall>i. HookCall i OnTrainFailed \<notin> set new)"
      by (auto simp: list_all_iff)
  qed
qed

theorem train_failure_protocol_witness:
  "error_of (run_hooks OnTrainBegin (two_counters\<lparr>stop := False\<rparr>)) = None \<and>
   error_of (train_body broken_env sample_cfg 1
      (final (run_hooks OnTrainBegin (two_counters\<lparr>stop := False\<rparr>)))) = Some (Raised 1) \<and>
   is_Exception (Raised 1) \<and>
   error_of (train broken_env sample_cfg 1 two_counters) = Some (Raised 1) \<and>
   trace (final (train broken_env sample_cfg 1 two_counters)) =
     [HookCall 0 OnTrainBegin, HookCall 1 OnTrainBegin, HookCall 0 OnEpochBegin,
      HookCall 1 OnEpochBegin, ZeroGrad, HookCall 0 (OnBatchBegin 0), HookCall 1 (OnBatchBegin 0),
      ModelCall 0, HookCall 0 OnTrainFailed, HookCall 1 OnTrainFailed]"
proof -
  define t1 where "t1 = two_counters\<lparr>hooks := [counting_hook 1, counting_hook 1],
      trace := [HookCall 0 OnTrainBegin, HookCall 1 OnTrainBegin]\<rparr>"
  define t2 where "t2 = two_counters\<lparr>epoch := 1, hooks := [counting_hook 3, counting_hook 3],
      trace := [HookCall 0 OnTrainBegin, HookCall 1 OnTrainBegin, HookCall 0 OnEpochBegin,
        HookCall 1 OnEpochBegin, ZeroGrad, HookCall 0 (OnBatchBegin 0),
        HookCall 1 (OnBatchBegin 0), ModelCall 0]\<rparr>"
  define t3 where "t3 = t2\<lparr>hooks := [counting_hook 4, counting_hook 4],
      trace := trace t2 @ [HookCall 0 OnTrainFailed, HookCall 1 OnTrainFailed]\<rparr>"
  have h: "run_hooks OnTrainBegin (two_counters\<lparr>stop := False\<rparr>) = Inr t1"
    by (simp add: t1_def two_counters_def run_hooks_def view_def sample_defs)
  have b: "train_body broken_env sample_cfg 1 t1 = Inl (Raised 1, t2)"
    by (simp add: t1_def t2_def two_counters_def train_body_def train_epoch_def
        train_batch_step_def run_hooks_def view_def sample_defs Let_def)
  have f: "run_hooks OnTrainFailed t2 = Inr t3"
    by (simp add: t3_def t2_def two_counters_def run_hooks_def view_def sample_defs)
  have e: "is_Exception (Raised 1)" by simp
  from train_failure_protocol [OF h b e] f
  have "train broken_env sample_cfg 1 two_counters = Inl (Raised 1, t3)" by blast
  with h b e show ?thesis
    by (simp add: error_of_def final_def t3_def t2_def)
qed

text \<open>
  C8 as it is stated has the exceptions of \<^verbatim>\<open>on_train_failed\<close> swallowed. Here the model
  raises \<open>Raised 1\<close> and the first of two hooks raises \<open>Raised 7\<close> when it is told: the
  caller gets \<open>Raised 7\<close>, and the second hook is never told.
\<close>

theorem train_failure_counterexample:
  "error_of (train broken_env sample_cfg 1 failing_first) = Some (Raised 7) \<and>
   trace (final (train broken_env sample_cfg 1 failing_first)) =
     [HookCall 0 OnTrainBegin, HookCall 1 OnTrainBegin, HookCall 0 OnEpochBegin,
      HookCall 1 OnEpochBegin, ZeroGrad, HookCall 0 (OnBatchBegin 0), HookCall 1 (OnBatchBegin 0),
      ModelCall 0, HookCall 0 OnTrainFailed]"
  by (simp add: failing_first_def run_defs sample_defs error_of_def final_def)

subsection \<open>C9: a stop when the epoch begins\<close>

text \<open>
  C9: if the stop flag is set when the \<^verbatim>\<open>on_epoch_begin\<close> calls of epoch \<open>E\<close> are over (the
  epoch counter of \<open>t\<close> is \<open>E - 1\<close>), the epoch loop ends there with the counter back at
  \<open>E - 1\<close>; the step counter, the model and the optimizer are as before, and all the
  epoch has added to the trace are these calls: no \<^verbatim>\<open>on_batch_begin\<close>, no call of the
  model, no optimizer step.
\<close>

theorem stop_at_epoch_begin:
  assumes "run_hooks OnEpochBegin (t\<lparr>epoch := epoch t + 1\<rparr>) = Inr t2" and "stop t2"
  shows "\<exists>t'. train_epoch env cfg t = Inr (Break, t') \<and> epoch_loop env cfg (Suc n) t = Inr t' \<and>
    epoch t' = epoch t \<and> step t' = step t \<and> model t' = model t \<and> optimizer t' = optimizer t \<and>
    trace t' = trace t @ hook_calls OnEpochBegin 0 (length (hooks t))"
proof -
  have e: "train_epoch env cfg t = Inr (Break, t2\<lparr>epoch := epoch t2 - 1\<rparr>)"
    using assms by (simp add: train_epoch_def Let_def)
  then have l: "epoch_loop env cfg (Suc n) t = Inr (t2\<lparr>epoch := epoch t2 - 1\<rparr>)"
    by simp
  from run_hooks_keeps [OF assms(1)] e l show ?thesis by simp
qed

theorem stop_at_epoch_begin_witness:
  "run_hooks OnEpochBegin (stopper\<lparr>epoch := epoch stopper + 1\<rparr>) =
     Inr (stopper\<lparr>epoch := 1, hooks := [stopping_hook\<lparr>hstate := 1\<rparr>], stop := True,
            trace := [HookCall 0 OnEpochBegin]\<rparr>) \<and>
   (\<exists>t'. epoch_loop sample_env sample_cfg (Suc 2) stopper = Inr t' \<and> epoch t' = 0 \<and>
      step t' = 0 \<and> trace t' = [HookCall 0 OnEpochBegin])"
proof -
  have h: "run_hooks OnEpochBegin (stopper\<lparr>epoch := epoch stopper + 1\<rparr>) =
     Inr (stopper\<lparr>epoch := 1, hooks := [stopping_hook\<lparr>hstate := 1\<rparr>], stop := True,
            trace := [HookCall 0 OnEpochBegin]\<rparr>)"
    by (simp add: run_hooks_def view_def sample_defs)
  have s: "stop (stopper\<lparr>epoch := 1, hooks := [stopping_hook\<lparr>hstate := 1\<rparr>], stop := True,
            trace := [HookCall 0 OnEpochBegin]\<rparr>)"
    by simp
  from stop_at_epoch_begin [OF h s, of sample_env sample_cfg 2] obtain t' where
    "epoch_loop sample_env sample_cfg (Suc 2) stopper = Inr t'" "epoch t' = epoch stopper"
    "step t' = step stopper"
    "trace t' = trace stopper @ hook_calls OnEpochBegin 0 (length (hooks stopper))"
    by blast
  then have "epoch_loop sample_env sample_cfg (Suc 2) stopper = Inr t' \<and> epoch t' = 0 \<and>
      step t' = 0 \<and> trace t' = [HookCall 0 OnEpochBegin]"
    by (simp add: stopper_def sample_trainer_def hook_calls_def)
  with h show ?thesis by blast
qed

subsection \<open>C10: the end of training\<close>

text \<open>
  C10, as the code has it: whenever the epoch loop ends without an exception, be it after
  the last epoch or by \<^verbatim>\<open>break\<close> on the stop flag, \<^verbatim>\<open>on_train_ends\<close> is called on every
  hook in order, and then one checkpoint is stored (its file written, then old files
  removed); when the loop raises, nothing of this takes place; and the loop itself never
  calls \<^verbatim>\<open>on_train_ends\<close>.
\<close>

theorem train_ends_protocol:
  "(\<forall>t1 t2. epoch_loop env cfg n t = Inr t1 \<and> run_hooks OnTrainEnds t1 = Inr t2 \<longrightarrow>
      train_body env cfg n t = Inr (store_checkpoint cfg t2) \<and>
      (\<exists>rs. trace (store_checkpoint cfg t2) =
         trace t1 @ hook_calls OnTrainEnds 0 (length (hooks t1)) @
         WriteCheckpoint (epoch t1) # map RemoveCheckpoint rs)) \<and>
   (\<forall>x. epoch_loop env cfg n t = Inl x \<longrightarrow> train_body env cfg n t = Inl x) \<and>
   (\<forall>e t1. epoch_loop env cfg n t = Inr t1 \<or> epoch_loop env cfg n t = Inl (e, t1) \<longrightarrow>
      (\<exists>new. trace t1 = trace t @ new \<and> (\<forall>i. HookCall i OnTrainEnds \<notin> set new)))"
proof (intro conjI allI impI)
  fix t1 t2
  assume a: "epoch_loop env cfg n t = Inr t1 \<and> run_hooks OnTrainEnds t1 = Inr t2"
  then show "train_body env cfg n t = Inr (store_checkpoint cfg t2)"
    by (simp add: train_body_def)
  from a have r: "run_hooks OnTrainEnds t1 = Inr t2" by simp
  have k: "trace t2 = trace t1 @ hook_calls OnTrainEnds 0 (length (hooks t1))"
    "epoch t2 = epoch t1"
    using run_hooks_keeps [OF r] by simp_all
  from store_checkpoint_trace [of cfg t2] k
  show "\<exists>rs. trace (store_checkpoint cfg t2) =
         trace t1 @ hook_calls OnTrainEnds 0 (length (hooks t1)) @
         WriteCheckpoint (epoch t1) # map RemoveCheckpoint rs"
    by simp
next
  fix x assume "epoch_loop env cfg n t = Inl x"
  then show "train_body env cfg n t = Inl x" by (simp add: train_body_def)
next
  fix e t1
  assume a: "epoch_loop env cfg n t = Inr t1 \<or> epoch_loop env cfg n t = Inl (e, t1)"
  have "post (extends loop_action t) (\<lambda>t'. t') (epoch_loop env cfg n t)"
    by (rule epoch_loop_post) simp
  with a have "extends loop_action t t1" by (auto dest: postD)
  then obtain new where n: "trace t1 = trace t @ new" "list_all loop_action new"
    by (auto simp: extends_def)
  have "HookCall i OnTrainEnds \<notin> set new" for i
    using n(2) by (auto simp: list_all_iff)
  with n(1) show "\<exists>new. trace t1 = trace t @ new \<and> (\<forall>i. HookCall i OnTrainEnds \<notin> set new)"
    by blast
qed

theorem train_ends_protocol_witness:
  "epoch_loop sample_env sample_cfg 3 stopper =
     Inr (stopper\<lparr>hooks := [stopping_hook\<lparr>hstate := 1\<rparr>], stop := True,
            trace := [HookCall 0 OnEpochBegin]\<rparr>) \<and>
   run_hooks OnTrainEnds (stopper\<lparr>hooks := [stopping_hook\<lparr>hstate := 1\<rparr>], stop := True,
            trace := [HookCall 0 OnEpochBegin]\<rparr>) =
     Inr (stopper\<lparr>hooks := [stopping_hook\<lparr>hstate := 2\<rparr>], stop := True,
            trace := [HookCall 0 OnEpochBegin, HookCall 0 OnTrainEnds]\<rparr>) \<and>
   train_body sample_env sample_cfg 3 stopper =
     Inr (store_checkpoint sample_cfg
       (stopper\<lparr>hooks := [stopping_hook\<lparr>hstate := 2\<rparr>], stop := True,
            trace := [HookCall 0 OnEpochBegin, HookCall 0 OnTrainEnds]\<rparr>))"
proof -
  have l: "epoch_loop sample_env sample_cfg 3 stopper =
     Inr (stopper\<lparr>hooks := [stopping_hook\<lparr>hstate := 1\<rparr>], stop := True,
            trace := [HookCall 0 OnEpochBegin]\<rparr>)"
    by (simp add: eval_nat_numeral train_epoch_def run_hooks_def view_def sample_defs)
  have h: "run_hooks OnTrainEnds (stopper\<lparr>hooks := [stopping_hook\<lparr>hstate := 1\<rparr>], stop := True,
            trace := [HookCall 0 OnEpochBegin]\<rparr>) =
     Inr (stopper\<lparr>hooks := [stopping_hook\<lparr>hstate := 2\<rparr>], stop := True,
            trace := [HookCall 0 OnEpochBegin, HookCall 0 OnTrainEnds]\<rparr>)"
    by (simp add: run_hooks_def view_def sample_defs)
  from train_ends_protocol [of sample_env sample_cfg 3 stopper] l h show ?thesis
    by blast
qed

text \<open>
  C10 as it is stated has \<^verbatim>\<open>on_train_ends\<close> and the final store only when the epochs are
  used up and the stop flag is not set. Here the hook stops the run as the first of
  three epochs begins: the flag is set, no epoch is counted, and \<^verbatim>\<open>on_train_ends\<close> and
  the store follow all the same.
\<close>

theorem train_ends_counterexample:
  "error_of (train sample_env sample_cfg 3 stopper) = None \<and>
   stop (final (train sample_env sample_cfg 3 stopper)) \<and>
   epoch (final (train sample_env sample_cfg 3 stopper)) = 0 \<and>
   trace (final (train sample_env sample_cfg 3 stopper)) =
     [HookCall 0 OnTrainBegin, HookCall 0 OnEpochBegin, HookCall 0 OnTrainEnds, WriteCheckpoint 0]"
  by (simp add: eval_nat_numeral run_defs sample_defs error_of_def final_def)

end
